theory Spec2Isabelle
  imports Main "HOL-Library.Word"
begin

unbundle bit_operations_syntax

section \<open>The transient range cache of \<open>BufferCache\<close>\<close>

text \<open>
  \<open>transient_cache_\<close> is a \<open>std::map\<close> from a 32-bit guest address to the pair
  (guest length, buffer offset).  \<open>CacheTransientData\<close> stores a \<open>uint32_t\<close> key, a
  \<open>uint32_t\<close> length and a \<open>VkDeviceSize\<close> (64-bit) offset.  The map is modelled by
  its in-order sequence of entries: a list sorted strictly by key.  An iterator is a
  position in that sequence; \<open>end()\<close> is the length of the list.
\<close>

type_synonym cache_entry = "32 word \<times> (32 word \<times> 64 word)"
type_synonym cache = "cache_entry list"

definition VK_WHOLE_SIZE :: "64 word" where
  "VK_WHOLE_SIZE = NOT 0"

text \<open>\<open>std::map::upper_bound\<close>: the position of the first entry whose key is greater
  than \<open>k\<close>.\<close>

definition upper_bound :: "cache \<Rightarrow> 32 word \<Rightarrow> nat" where
  "upper_bound c k = length (takeWhile (\<lambda>e. fst e \<le> k) c)"

text \<open>\<open>transient_cache_[k] = v\<close>: overwrite the entry with key \<open>k\<close>, or insert one
  at its place in key order.\<close>

fun map_assign :: "cache \<Rightarrow> 32 word \<Rightarrow> (32 word \<times> 64 word) \<Rightarrow> cache" where
  "map_assign [] k v = [(k, v)]"
| "map_assign (e # es) k v =
     (if k < fst e then (k, v) # e # es
      else if k = fst e then (k, v) # es
      else e # map_assign es k v)"

text \<open>\<open>std::map::erase(it)\<close>: remove the entry at the position; the returned iterator
  (the entry that followed) is at the same position of the new sequence.\<close>

definition map_erase :: "cache \<Rightarrow> nat \<Rightarrow> cache" where
  "map_erase c it = take it c @ drop (Suc it) c"

definition FindCachedTransientData :: "cache \<Rightarrow> 32 word \<Rightarrow> 32 word \<Rightarrow> 64 word" where
  "FindCachedTransientData c guest_address guest_length =
     (if c = [] then VK_WHOLE_SIZE
      else
        let it = upper_bound c guest_address in
        if it \<noteq> 0 then
          (let it = it - 1 in
           if fst (c ! it) + fst (snd (c ! it)) \<ge> guest_address + guest_length
           then snd (snd (c ! it)) + ucast (guest_address - fst (c ! it))
           else VK_WHOLE_SIZE)
        else VK_WHOLE_SIZE)"

text \<open>The erase loop of \<open>CacheTransientData\<close>: from position \<open>it\<close>, erase entries
  while the new range covers their end, and stop at the first one it does not cover.\<close>

function erase_contained :: "cache \<Rightarrow> 32 word \<Rightarrow> 32 word \<Rightarrow> nat \<Rightarrow> cache" where
  "erase_contained c guest_address guest_length it =
     (if it < length c then
        (if guest_address + guest_length \<ge> fst (c ! it) + fst (snd (c ! it))
         then erase_contained (map_erase c it) guest_address guest_length it
         else c)
      else c)"
  by pat_completeness auto
termination
  by (relation "measure (\<lambda>(c, a, l, it). length c - it)") (auto simp: map_erase_def)

declare erase_contained.simps [simp del]

definition CacheTransientData :: "cache \<Rightarrow> 32 word \<Rightarrow> 32 word \<Rightarrow> 64 word \<Rightarrow> cache" where
  "CacheTransientData c guest_address guest_length offset =
     (let c1 = map_assign c guest_address (guest_length, offset);
          it = upper_bound c1 guest_address
      in erase_contained c1 guest_address guest_length it)"


section \<open>Host memory and the byte-order copy routines\<close>

text \<open>
  The copy routines take untyped pointers.  Memory is a map from byte addresses to
  bytes; a pointer is an address.  The source of a copy is guest memory and the
  destination is the mapped transient buffer, two separate regions, so each routine gets
  the two memories and returns the destination.  The host is \<open>XE_ARCH_AMD64\<close>: a
  \<open>uint16_t\<close> or \<open>uint32_t\<close> at address \<open>p\<close> has its least significant byte at \<open>p\<close>.
\<close>

type_synonym mem = "nat \<Rightarrow> 8 word"

definition load_u16 :: "mem \<Rightarrow> nat \<Rightarrow> 16 word" where
  "load_u16 m p = ucast (m p) OR push_bit 8 (ucast (m (p + 1)))"

definition store_u16 :: "mem \<Rightarrow> nat \<Rightarrow> 16 word \<Rightarrow> mem" where
  "store_u16 m p v = (m(p := ucast v))(p + 1 := ucast (drop_bit 8 v))"

definition load_u32 :: "mem \<Rightarrow> nat \<Rightarrow> 32 word" where
  "load_u32 m p =
     ucast (m p) OR push_bit 8 (ucast (m (p + 1))) OR
     push_bit 16 (ucast (m (p + 2))) OR push_bit 24 (ucast (m (p + 3)))"

definition store_u32 :: "mem \<Rightarrow> nat \<Rightarrow> 32 word \<Rightarrow> mem" where
  "store_u32 m p v =
     (((m(p := ucast v))(p + 1 := ucast (drop_bit 8 v)))
        (p + 2 := ucast (drop_bit 16 v)))(p + 3 := ucast (drop_bit 24 v))"

text \<open>\<open>std::memcpy(dest + dp, src + sp, n)\<close>.\<close>

definition memcpy :: "mem \<Rightarrow> nat \<Rightarrow> mem \<Rightarrow> nat \<Rightarrow> nat \<Rightarrow> mem" where
  "memcpy dest dp src sp n = (\<lambda>a. if dp \<le> a \<and> a < dp + n then src (sp + (a - dp)) else dest a)"

text \<open>
  Modelled from the spec: \<open>xe::byte_swap\<close> (xenia/base/byte_order.h is not among the
  sources).  It reverses the byte order within a 16- or 32-bit element.
\<close>

definition byte_swap_16 :: "16 word \<Rightarrow> 16 word" where
  "byte_swap_16 v = push_bit 8 v OR drop_bit 8 v"

definition byte_swap_32 :: "32 word \<Rightarrow> 32 word" where
  "byte_swap_32 v =
     push_bit 24 v OR push_bit 8 (v AND 0xFF00) OR (drop_bit 8 v AND 0xFF00) OR drop_bit 24 v"

subsection \<open>The SSE intrinsics used by the vector loops\<close>

text \<open>A \<open>__m128i\<close> is its 16 bytes, byte 0 (the least significant) first.\<close>

type_synonym m128i = "8 word list"

definition mm_set_epi8 ::
  "8 word \<Rightarrow> 8 word \<Rightarrow> 8 word \<Rightarrow> 8 word \<Rightarrow> 8 word \<Rightarrow> 8 word \<Rightarrow> 8 word \<Rightarrow> 8 word \<Rightarrow>
   8 word \<Rightarrow> 8 word \<Rightarrow> 8 word \<Rightarrow> 8 word \<Rightarrow> 8 word \<Rightarrow> 8 word \<Rightarrow> 8 word \<Rightarrow> 8 word \<Rightarrow> m128i" where
  "mm_set_epi8 e15 e14 e13 e12 e11 e10 e9 e8 e7 e6 e5 e4 e3 e2 e1 e0 =
     [e0, e1, e2, e3, e4, e5, e6, e7, e8, e9, e10, e11, e12, e13, e14, e15]"

definition mm_set1_epi16 :: "16 word \<Rightarrow> m128i" where
  "mm_set1_epi16 v = concat (replicate 8 [ucast v, ucast (drop_bit 8 v)])"

definition mm_set1_epi32 :: "32 word \<Rightarrow> m128i" where
  "mm_set1_epi32 v =
     concat (replicate 4 [ucast v, ucast (drop_bit 8 v), ucast (drop_bit 16 v), ucast (drop_bit 24 v)])"

definition mm_loadu_si128 :: "mem \<Rightarrow> nat \<Rightarrow> m128i" where
  "mm_loadu_si128 m p = map (\<lambda>k. m (p + k)) [0..<16]"

definition mm_storeu_si128 :: "mem \<Rightarrow> nat \<Rightarrow> m128i \<Rightarrow> mem" where
  "mm_storeu_si128 m p v = (\<lambda>a. if p \<le> a \<and> a < p + 16 then v ! (a - p) else m a)"

text \<open>\<open>pshufb\<close>: byte \<open>k\<close> of the result is 0 when bit 7 of control byte \<open>k\<close> is set,
  and otherwise the byte of \<open>a\<close> selected by the low four bits of the control byte.\<close>

definition mm_shuffle_epi8 :: "m128i \<Rightarrow> m128i \<Rightarrow> m128i" where
  "mm_shuffle_epi8 a b = map (\<lambda>c. if bit c 7 then 0 else a ! unat (c AND 0x0F)) b"

definition mm_cmpeq_epi16 :: "m128i \<Rightarrow> m128i \<Rightarrow> m128i" where
  "mm_cmpeq_epi16 a b =
     concat (map (\<lambda>j. if a ! (2 * j) = b ! (2 * j) \<and> a ! (2 * j + 1) = b ! (2 * j + 1)
                       then [0xFF, 0xFF] else [0, 0]) [0..<8])"

definition mm_cmpeq_epi32 :: "m128i \<Rightarrow> m128i \<Rightarrow> m128i" where
  "mm_cmpeq_epi32 a b =
     concat (map (\<lambda>j. if a ! (4 * j) = b ! (4 * j) \<and> a ! (4 * j + 1) = b ! (4 * j + 1) \<and>
                          a ! (4 * j + 2) = b ! (4 * j + 2) \<and> a ! (4 * j + 3) = b ! (4 * j + 3)
                       then [0xFF, 0xFF, 0xFF, 0xFF] else [0, 0, 0, 0]) [0..<4])"

definition mm_or_si128 :: "m128i \<Rightarrow> m128i \<Rightarrow> m128i" where
  "mm_or_si128 a b = map2 (OR) a b"

subsection \<open>Scalar element loops\<close>

text \<open>\<open>for (; i < count; ++i) dest[i] = f(src[i]);\<close> over \<open>uint16_t\<close> and over
  \<open>uint32_t\<close> elements.\<close>

function loop_u16 ::
  "(16 word \<Rightarrow> 16 word) \<Rightarrow> mem \<Rightarrow> nat \<Rightarrow> mem \<Rightarrow> nat \<Rightarrow> nat \<Rightarrow> nat \<Rightarrow> mem" where
  "loop_u16 f dest dp src sp count i =
     (if i < count
      then loop_u16 f (store_u16 dest (dp + 2 * i) (f (load_u16 src (sp + 2 * i))))
             dp src sp count (i + 1)
      else dest)"
  by pat_completeness auto
termination
  by (relation "measure (\<lambda>(f, dest, dp, src, sp, count, i). count - i)") auto

declare loop_u16.simps [simp del]

function loop_u32 ::
  "(32 word \<Rightarrow> 32 word) \<Rightarrow> mem \<Rightarrow> nat \<Rightarrow> mem \<Rightarrow> nat \<Rightarrow> nat \<Rightarrow> nat \<Rightarrow> mem" where
  "loop_u32 f dest dp src sp count i =
     (if i < count
      then loop_u32 f (store_u32 dest (dp + 4 * i) (f (load_u32 src (sp + 4 * i))))
             dp src sp count (i + 1)
      else dest)"
  by pat_completeness auto
termination
  by (relation "measure (\<lambda>(f, dest, dp, src, sp, count, i). count - i)") auto

declare loop_u32.simps [simp del]

subsection \<open>\<open>copy_cmp_swap_16_unaligned\<close> and \<open>copy_cmp_swap_32_unaligned\<close> (the
  \<open>XE_ARCH_AMD64\<close> branch)\<close>

function copy_cmp_swap_16_simd ::
  "mem \<Rightarrow> nat \<Rightarrow> mem \<Rightarrow> nat \<Rightarrow> m128i \<Rightarrow> m128i \<Rightarrow> nat \<Rightarrow> nat \<Rightarrow> mem \<times> nat" where
  "copy_cmp_swap_16_simd dest dp src sp shufmask cmpval count i =
     (if i + 8 \<le> count then
        (let input = mm_loadu_si128 src (sp + 2 * i);
             output = mm_shuffle_epi8 input shufmask;
             mask = mm_cmpeq_epi16 output cmpval;
             output = mm_or_si128 output mask
         in copy_cmp_swap_16_simd (mm_storeu_si128 dest (dp + 2 * i) output)
              dp src sp shufmask cmpval count (i + 8))
      else (dest, i))"
  by pat_completeness auto
termination
  by (relation "measure (\<lambda>(dest, dp, src, sp, shufmask, cmpval, count, i). count - i)") auto

declare copy_cmp_swap_16_simd.simps [simp del]

definition copy_cmp_swap_16_unaligned ::
  "mem \<Rightarrow> nat \<Rightarrow> mem \<Rightarrow> nat \<Rightarrow> 16 word \<Rightarrow> nat \<Rightarrow> mem" where
  "copy_cmp_swap_16_unaligned dest dp src sp cmp_value count =
     (let shufmask = mm_set_epi8 0x0E 0x0F 0x0C 0x0D 0x0A 0x0B 0x08 0x09 0x06 0x07
                       0x04 0x05 0x02 0x03 0x00 0x01;
          cmpval = mm_set1_epi16 cmp_value;
          (dest, i) = copy_cmp_swap_16_simd dest dp src sp shufmask cmpval count 0
      in loop_u16 byte_swap_16 dest dp src sp count i)"

function copy_cmp_swap_32_simd ::
  "mem \<Rightarrow> nat \<Rightarrow> mem \<Rightarrow> nat \<Rightarrow> m128i \<Rightarrow> m128i \<Rightarrow> nat \<Rightarrow> nat \<Rightarrow> mem \<times> nat" where
  "copy_cmp_swap_32_simd dest dp src sp shufmask cmpval count i =
     (if i + 4 \<le> count then
        (let input = mm_loadu_si128 src (sp + 4 * i);
             output = mm_shuffle_epi8 input shufmask;
             mask = mm_cmpeq_epi32 output cmpval;
             output = mm_or_si128 output mask
         in copy_cmp_swap_32_simd (mm_storeu_si128 dest (dp + 4 * i) output)
              dp src sp shufmask cmpval count (i + 4))
      else (dest, i))"
  by pat_completeness auto
termination
  by (relation "measure (\<lambda>(dest, dp, src, sp, shufmask, cmpval, count, i). count - i)") auto

declare copy_cmp_swap_32_simd.simps [simp del]

definition copy_cmp_swap_32_unaligned ::
  "mem \<Rightarrow> nat \<Rightarrow> mem \<Rightarrow> nat \<Rightarrow> 32 word \<Rightarrow> nat \<Rightarrow> mem" where
  "copy_cmp_swap_32_unaligned dest dp src sp cmp_value count =
     (let shufmask = mm_set_epi8 0x0C 0x0D 0x0E 0x0F 0x08 0x09 0x0A 0x0B 0x04 0x05
                       0x06 0x07 0x00 0x01 0x02 0x03;
          cmpval = mm_set1_epi32 cmp_value;
          (dest, i) = copy_cmp_swap_32_simd dest dp src sp shufmask cmpval count 0
      in loop_u32 byte_swap_32 dest dp src sp count i)"

subsection \<open>\<open>copy_and_swap_16_unaligned\<close> and \<open>copy_and_swap_32_unaligned\<close> with a
  \<open>cmp_value\<close> (the scalar \<open>#else\<close> branch)\<close>

definition copy_and_swap_16_unaligned ::
  "mem \<Rightarrow> nat \<Rightarrow> mem \<Rightarrow> nat \<Rightarrow> 16 word \<Rightarrow> nat \<Rightarrow> mem" where
  "copy_and_swap_16_unaligned dest dp src sp cmp_value count =
     loop_u16 (\<lambda>e. let v = byte_swap_16 e in if v = cmp_value then 0xFFFF else v)
       dest dp src sp count 0"

definition copy_and_swap_32_unaligned ::
  "mem \<Rightarrow> nat \<Rightarrow> mem \<Rightarrow> nat \<Rightarrow> 32 word \<Rightarrow> nat \<Rightarrow> mem" where
  "copy_and_swap_32_unaligned dest dp src sp cmp_value count =
     loop_u32 (\<lambda>e. let v = byte_swap_32 e in if v = cmp_value then 0xFFFFFFFF else v)
       dest dp src sp count 0"


definition xe_copy_and_swap_32_unaligned :: "mem \<Rightarrow> nat \<Rightarrow> mem \<Rightarrow> nat \<Rightarrow> nat \<Rightarrow> mem" where
  "xe_copy_and_swap_32_unaligned dest dp src sp count =
     loop_u32 byte_swap_32 dest dp src sp count 0"

definition xe_copy_and_swap_16_in_32_unaligned :: "mem \<Rightarrow> nat \<Rightarrow> mem \<Rightarrow> nat \<Rightarrow> nat \<Rightarrow> mem" where
  "xe_copy_and_swap_16_in_32_unaligned dest dp src sp count =
     loop_u32 (\<lambda>v. push_bit 16 v OR drop_bit 16 v) dest dp src sp count 0"


section \<open>\<open>BufferCache\<close>\<close>

text \<open>
  The circular buffer behind \<open>transient_buffer_\<close> (\<open>ui::vulkan::CircularBuffer\<close>) is
  not among the sources.  Its state is a type parameter \<open>'rb\<close> and its operations are
  taken as a parameter: \<open>Acquire\<close> returns the offset of the allocation, or \<open>None\<close>
  for a null allocation; \<open>gpu_buffer\<close> is a buffer handle.  The bytes behind
  \<open>host_base()\<close> are the field \<open>host_base\<close> of the state.
\<close>

type_synonym VkFence = nat
type_synonym VkBuffer = nat
type_synonym VkDeviceSize = "64 word"

record 'rb CircularBuffer =
  Acquire :: "'rb \<Rightarrow> VkDeviceSize \<Rightarrow> VkFence \<Rightarrow> VkDeviceSize option \<times> 'rb"
  rb_Scavenge :: "'rb \<Rightarrow> 'rb"
  rb_Flush :: "'rb \<Rightarrow> VkDeviceSize \<Rightarrow> VkDeviceSize \<Rightarrow> 'rb"
  gpu_buffer :: "'rb \<Rightarrow> VkBuffer"

text \<open>The register indices come from the register table, which is not among the
  sources; they are taken as a parameter.\<close>

record register_table =
  XE_GPU_REG_SHADER_CONSTANT_000_X :: nat
  XE_GPU_REG_SHADER_CONSTANT_BOOL_000_031 :: nat
  XE_GPU_REG_SHADER_CONSTANT_LOOP_00 :: nat
  XE_GPU_REG_VGT_MULTI_PRIM_IB_RESET_INDX :: nat
  XE_GPU_REG_PA_SU_SC_MODE_CNTL :: nat

text \<open>
  \<open>register_file\<close> is \<open>register_file_->values\<close> (one 32-bit value per register),
  \<open>memory\<close> is guest physical memory (\<open>TranslatePhysical\<close> of an address is that
  address in it).
\<close>

record 'rb BufferCache =
  register_file :: "nat \<Rightarrow> 32 word"
  memory :: mem
  transient_buffer :: 'rb
  host_base :: mem
  transient_cache :: cache

definition TranslatePhysical :: "32 word \<Rightarrow> nat" where
  "TranslatePhysical guest_address = unat guest_address"

text \<open>The bytes of the array \<open>values\<close>, as \<open>memcpy\<close> reads them: register \<open>r\<close>
  occupies the four bytes from \<open>4 * r\<close>.\<close>

definition values_bytes :: "(nat \<Rightarrow> 32 word) \<Rightarrow> mem" where
  "values_bytes values = (\<lambda>a. ucast (drop_bit (8 * (a mod 4)) (values (a div 4))))"


datatype Endian = kUnspecified | k8in16 | k8in32 | k16in32

datatype VkAccessFlagBits =
  VK_ACCESS_HOST_WRITE_BIT | VK_ACCESS_UNIFORM_READ_BIT | VK_ACCESS_SHADER_READ_BIT |
  VK_ACCESS_INDEX_READ_BIT | VK_ACCESS_VERTEX_ATTRIBUTE_READ_BIT

datatype VkPipelineStageFlagBits =
  VK_PIPELINE_STAGE_HOST_BIT | VK_PIPELINE_STAGE_ALL_COMMANDS_BIT |
  VK_PIPELINE_STAGE_VERTEX_INPUT_BIT

record VkBufferMemoryBarrier =
  srcAccessMask :: "VkAccessFlagBits list"
  dstAccessMask :: "VkAccessFlagBits list"
  barrier_buffer :: VkBuffer
  barrier_offset :: VkDeviceSize
  barrier_size :: VkDeviceSize

text \<open>A command buffer is the sequence of the barriers recorded into it.\<close>

type_synonym VkCommandBuffer =
  "(VkPipelineStageFlagBits \<times> VkPipelineStageFlagBits \<times> VkBufferMemoryBarrier) list"

definition vkCmdPipelineBarrier ::
  "VkCommandBuffer \<Rightarrow> VkPipelineStageFlagBits \<Rightarrow> VkPipelineStageFlagBits \<Rightarrow>
   VkBufferMemoryBarrier \<Rightarrow> VkCommandBuffer" where
  "vkCmdPipelineBarrier command_buffer srcStageMask dstStageMask barrier =
     command_buffer @ [(srcStageMask, dstStageMask, barrier)]"

datatype error = AssertionFailure

definition kConstantRegisterUniformRange :: VkDeviceSize where
  "kConstantRegisterUniformRange = 512 * 4 * 4 + 8 * 4 + 32 * 4"

definition TryAllocateTransientData ::
  "'rb CircularBuffer \<Rightarrow> 'rb BufferCache \<Rightarrow> VkDeviceSize \<Rightarrow> VkFence \<Rightarrow>
   VkDeviceSize \<times> 'rb BufferCache" where
  "TryAllocateTransientData rb s length' fence =
     (case Acquire rb (transient_buffer s) length' fence of
        (Some alloc_offset, b) \<Rightarrow> (alloc_offset, s\<lparr>transient_buffer := b\<rparr>)
      | (None, b) \<Rightarrow> (VK_WHOLE_SIZE, s\<lparr>transient_buffer := b\<rparr>))"

definition AllocateTransientData ::
  "'rb CircularBuffer \<Rightarrow> 'rb BufferCache \<Rightarrow> VkDeviceSize \<Rightarrow> VkFence \<Rightarrow>
   VkDeviceSize \<times> 'rb BufferCache" where
  "AllocateTransientData rb s length' fence =
     (let (offset, s) = TryAllocateTransientData rb s length' fence in
      if offset \<noteq> VK_WHOLE_SIZE then (offset, s)
      else
        let s = s\<lparr>transient_buffer := rb_Scavenge rb (transient_buffer s)\<rparr>;
            (offset, s) = TryAllocateTransientData rb s length' fence
        in (offset, s))"

definition UploadConstantRegisters ::
  "'rb CircularBuffer \<Rightarrow> register_table \<Rightarrow> 'rb BufferCache \<Rightarrow> VkCommandBuffer \<Rightarrow> VkFence \<Rightarrow>
   (VkDeviceSize \<times> VkDeviceSize) \<times> 'rb BufferCache \<times> VkCommandBuffer" where
  "UploadConstantRegisters rb regs s command_buffer fence =
     (let (offset, s) = AllocateTransientData rb s kConstantRegisterUniformRange fence in
      if offset = VK_WHOLE_SIZE then ((VK_WHOLE_SIZE, VK_WHOLE_SIZE), s, command_buffer)
      else
        let values = values_bytes (register_file s);
            dest_ptr = unat offset;
            s = s\<lparr>host_base := memcpy (host_base s) dest_ptr values
                   (4 * XE_GPU_REG_SHADER_CONSTANT_000_X regs) (512 * 4 * 4)\<rparr>;
            dest_ptr = dest_ptr + 512 * 4 * 4;
            s = s\<lparr>host_base := memcpy (host_base s) dest_ptr values
                   (4 * XE_GPU_REG_SHADER_CONSTANT_BOOL_000_031 regs) (8 * 4)\<rparr>;
            dest_ptr = dest_ptr + 8 * 4;
            s = s\<lparr>host_base := memcpy (host_base s) dest_ptr values
                   (4 * XE_GPU_REG_SHADER_CONSTANT_LOOP_00 regs) (32 * 4)\<rparr>;
            s = s\<lparr>transient_buffer :=
                   rb_Flush rb (transient_buffer s) offset kConstantRegisterUniformRange\<rparr>;
            barrier = \<lparr>srcAccessMask = [VK_ACCESS_HOST_WRITE_BIT],
                       dstAccessMask = [VK_ACCESS_UNIFORM_READ_BIT, VK_ACCESS_SHADER_READ_BIT],
                       barrier_buffer = gpu_buffer rb (transient_buffer s),
                       barrier_offset = offset,
                       barrier_size = kConstantRegisterUniformRange\<rparr>
        in ((offset, offset), s,
            vkCmdPipelineBarrier command_buffer VK_PIPELINE_STAGE_HOST_BIT
              VK_PIPELINE_STAGE_ALL_COMMANDS_BIT barrier))"


text \<open>\<open>assert_always()\<close> on an endian mode other than \<open>k8in32\<close> and \<open>k16in32\<close> is
  the error \<open>AssertionFailure\<close>.  \<open>assert(upload_base <= source_addr)\<close> cannot fail:
  the two are equal, since the call of \<open>QueryBaseAndSize\<close> is commented out.\<close>

definition UploadVertexBuffer ::
  "'rb CircularBuffer \<Rightarrow> 'rb BufferCache \<Rightarrow> VkCommandBuffer \<Rightarrow>
   32 word \<Rightarrow> 32 word \<Rightarrow> Endian \<Rightarrow> VkFence \<Rightarrow>
   error + ((VkBuffer \<times> VkDeviceSize) \<times> 'rb BufferCache \<times> VkCommandBuffer)" where
  "UploadVertexBuffer rb s command_buffer source_addr source_length endian fence =
     (let offset = FindCachedTransientData (transient_cache s) source_addr source_length in
      if offset \<noteq> VK_WHOLE_SIZE
      then Inr ((gpu_buffer rb (transient_buffer s), offset), s, command_buffer)
      else
        let upload_base = source_addr;
            upload_size = source_length;
            source_offset = source_addr - upload_base;
            (offset, s) = AllocateTransientData rb s (ucast upload_size) fence
        in
        if offset = VK_WHOLE_SIZE then Inr ((0, VK_WHOLE_SIZE), s, command_buffer)
        else
          let upload_ptr = TranslatePhysical upload_base in
          if endian \<noteq> k8in32 \<and> endian \<noteq> k16in32 then Inl AssertionFailure
          else
            let s =
                  (if endian = k8in32 then
                     s\<lparr>host_base := xe_copy_and_swap_32_unaligned (host_base s) (unat offset)
                          (memory s) upload_ptr (unat source_length div 4)\<rparr>
                   else
                     s\<lparr>host_base := xe_copy_and_swap_16_in_32_unaligned (host_base s)
                          (unat offset) (memory s) upload_ptr (unat source_length div 4)\<rparr>);
                s = s\<lparr>transient_buffer :=
                       rb_Flush rb (transient_buffer s) offset (ucast upload_size)\<rparr>;
                barrier = \<lparr>srcAccessMask = [VK_ACCESS_HOST_WRITE_BIT],
                           dstAccessMask = [VK_ACCESS_VERTEX_ATTRIBUTE_READ_BIT],
                           barrier_buffer = gpu_buffer rb (transient_buffer s),
                           barrier_offset = offset,
                           barrier_size = ucast upload_size\<rparr>;
                command_buffer =
                  vkCmdPipelineBarrier command_buffer VK_PIPELINE_STAGE_HOST_BIT
                    VK_PIPELINE_STAGE_VERTEX_INPUT_BIT barrier;
                s = s\<lparr>transient_cache :=
                       CacheTransientData (transient_cache s) upload_base upload_size offset\<rparr>
            in Inr ((gpu_buffer rb (transient_buffer s), offset + ucast source_offset),
                    s, command_buffer))"

definition InvalidateCache :: "'rb BufferCache \<Rightarrow> 'rb BufferCache" where
  "InvalidateCache s = s\<lparr>transient_cache := []\<rparr>"

definition ClearCache :: "'rb BufferCache \<Rightarrow> 'rb BufferCache" where
  "ClearCache s = s\<lparr>transient_cache := []\<rparr>"

definition Scavenge :: "'rb CircularBuffer \<Rightarrow> 'rb BufferCache \<Rightarrow> 'rb BufferCache" where
  "Scavenge rb s =
     (let s = s\<lparr>transient_cache := []\<rparr>
      in s\<lparr>transient_buffer := rb_Scavenge rb (transient_buffer s)\<rparr>)"

subsection \<open>A probe for the calls made on the circular buffer\<close>

text \<open>The probe wraps any circular buffer and appends every call made on it to a log
  kept beside the buffer's state.\<close>

datatype rb_call =
  AcquireCall VkDeviceSize VkFence | ScavengeCall | FlushCall VkDeviceSize VkDeviceSize

definition probe :: "'rb CircularBuffer \<Rightarrow> ('rb \<times> rb_call list) CircularBuffer" where
  "probe rb =
     \<lparr>Acquire = (\<lambda>(b, log) length' fence.
         (fst (Acquire rb b length' fence),
          (snd (Acquire rb b length' fence), log @ [AcquireCall length' fence]))),
      rb_Scavenge = (\<lambda>(b, log). (rb_Scavenge rb b, log @ [ScavengeCall])),
      rb_Flush = (\<lambda>(b, log) offset' length'.
         (rb_Flush rb b offset' length', log @ [FlushCall offset' length'])),
      gpu_buffer = (\<lambda>(b, log). gpu_buffer rb b)\<rparr>"


subsection \<open>A small circular buffer for the examples\<close>

text \<open>
  A circular buffer of \<open>capacity\<close> bytes whose state is its write cursor.  \<open>Acquire\<close>
  grants the bytes at the cursor when they fit and a null allocation otherwise;
  \<open>Scavenge\<close> finds every fence signalled and reclaims the whole buffer.
\<close>

definition bump_buffer :: "nat \<Rightarrow> nat CircularBuffer" where
  "bump_buffer capacity =
     \<lparr>Acquire = (\<lambda>cursor length' fence.
         if cursor + unat length' \<le> capacity
         then (Some (of_nat cursor), cursor + unat length') else (None, cursor)),
      rb_Scavenge = (\<lambda>cursor. 0),
      rb_Flush = (\<lambda>cursor offset' length'. cursor),
      gpu_buffer = (\<lambda>cursor. 1)\<rparr>"

definition example_registers :: register_table where
  "example_registers =
     \<lparr>XE_GPU_REG_SHADER_CONSTANT_000_X = 0x4000,
      XE_GPU_REG_SHADER_CONSTANT_BOOL_000_031 = 0x4900,
      XE_GPU_REG_SHADER_CONSTANT_LOOP_00 = 0x4908,
      XE_GPU_REG_VGT_MULTI_PRIM_IB_RESET_INDX = 0x2103,
      XE_GPU_REG_PA_SU_SC_MODE_CNTL = 0x2205\<rparr>"

text \<open>An example state: register \<open>0x2205\<close> has bit 21 set and every other register
  holds its own index; the guest memory byte at address \<open>a\<close> is \<open>a mod 256\<close>; the
  transient buffer is empty and its log of calls is empty.\<close>

definition example_state :: "nat \<Rightarrow> cache \<Rightarrow> (nat \<times> rb_call list) BufferCache" where
  "example_state cursor c =
     \<lparr>register_file = (\<lambda>r. if r = 0x2205 then 0x200000 else of_nat r),
      memory = (\<lambda>a. of_nat a),
      transient_buffer = (cursor, []), host_base = (\<lambda>a. 0), transient_cache = c\<rparr>"

text \<open>Guest memory in which every 16-bit element is \<open>0x1234\<close> as the host reads it,
  \<open>0x3412\<close> once its bytes are swapped.\<close>

definition example_indices :: mem where
  "example_indices = (\<lambda>a. if even a then 0x34 else 0x12)"

section \<open>Notions used to state the properties\<close>

text \<open>The end \<open>guestAddress + guestLength\<close> of an entry's interval, as a number
  (not reduced to 32 bits).\<close>

definition entry_end :: "cache_entry \<Rightarrow> nat" where
  "entry_end e = unat (fst e) + unat (fst (snd e))"

text \<open>The invariant of \<open>std::map\<close>: in iteration order the keys increase strictly.\<close>

definition map_sorted :: "cache \<Rightarrow> bool" where
  "map_sorted c \<longleftrightarrow> sorted_wrt (<) (map fst c)"

text \<open>The interval ends increase strictly with the start addresses: no entry covers
  the end of an entry that starts after it.\<close>

definition ends_increasing :: "cache \<Rightarrow> bool" where
  "ends_increasing c \<longleftrightarrow> sorted_wrt (<) (map entry_end c)"

text \<open>\<open>e\<close> is the entry of \<open>c\<close> with the greatest guest address at or below \<open>a\<close>.\<close>

definition greatest_at_or_below :: "cache \<Rightarrow> 32 word \<Rightarrow> cache_entry \<Rightarrow> bool" where
  "greatest_at_or_below c a e \<longleftrightarrow>
     e \<in> set c \<and> fst e \<le> a \<and> (\<forall>e' \<in> set c. fst e' \<le> a \<longrightarrow> fst e' \<le> fst e)"

text \<open>The interval of \<open>e\<close> fully contains \<open>[a, a + l)\<close>.\<close>

definition covers :: "cache_entry \<Rightarrow> 32 word \<Rightarrow> 32 word \<Rightarrow> bool" where
  "covers e a l \<longleftrightarrow> unat (fst e) \<le> unat a \<and> unat a + unat l \<le> entry_end e"


text \<open>The copy that the endian mode selects for a vertex buffer.\<close>

definition selected_vertex_copy :: "mem \<Rightarrow> VkDeviceSize \<Rightarrow> mem \<Rightarrow> 32 word \<Rightarrow> 32 word \<Rightarrow> Endian \<Rightarrow> mem" where
  "selected_vertex_copy dest off src source_addr source_length endian =
     (if endian = k8in32
      then xe_copy_and_swap_32_unaligned dest (unat off) src (TranslatePhysical source_addr)
             (unat source_length div 4)
      else xe_copy_and_swap_16_in_32_unaligned dest (unat off) src (TranslatePhysical source_addr)
             (unat source_length div 4))"

text \<open>The 16-bit and the 32-bit value of bytes in host order, least significant
  byte first.\<close>

definition le16 :: "8 word \<Rightarrow> 8 word \<Rightarrow> 16 word" where
  "le16 b0 b1 = ucast b0 OR push_bit 8 (ucast b1)"

definition le32 :: "8 word \<Rightarrow> 8 word \<Rightarrow> 8 word \<Rightarrow> 8 word \<Rightarrow> 32 word" where
  "le32 b0 b1 b2 b3 =
     ucast b0 OR push_bit 8 (ucast b1) OR push_bit 16 (ucast b2) OR push_bit 24 (ucast b3)"

text \<open>The shuffle masks of the two vector loops, and the vector that the body of each
  loop stores, as a function of the vector it loads and of \<open>cmp_value\<close>.\<close>

definition shufmask_16 :: m128i where
  "shufmask_16 = mm_set_epi8 0x0E 0x0F 0x0C 0x0D 0x0A 0x0B 0x08 0x09 0x06 0x07 0x04 0x05 0x02 0x03
     0x00 0x01"

definition shufmask_32 :: m128i where
  "shufmask_32 = mm_set_epi8 0x0C 0x0D 0x0E 0x0F 0x08 0x09 0x0A 0x0B 0x04 0x05 0x06 0x07 0x00 0x01
     0x02 0x03"

definition simd_out_16 :: "m128i \<Rightarrow> 16 word \<Rightarrow> m128i" where
  "simd_out_16 input c =
     (let output = mm_shuffle_epi8 input
            (mm_set_epi8 0x0E 0x0F 0x0C 0x0D 0x0A 0x0B 0x08 0x09 0x06 0x07 0x04 0x05 0x02 0x03
               0x00 0x01)
      in mm_or_si128 output (mm_cmpeq_epi16 output (mm_set1_epi16 c)))"

definition simd_out_32 :: "m128i \<Rightarrow> 32 word \<Rightarrow> m128i" where
  "simd_out_32 input c =
     (let output = mm_shuffle_epi8 input
            (mm_set_epi8 0x0C 0x0D 0x0E 0x0F 0x08 0x09 0x0A 0x0B 0x04 0x05 0x06 0x07 0x00 0x01
               0x02 0x03)
      in mm_or_si128 output (mm_cmpeq_epi32 output (mm_set1_epi32 c)))"

section \<open>Clearing the range cache\<close>

text \<open>
  Claim C10.  \<open>InvalidateCache\<close> and \<open>ClearCache\<close> produce the same state from every
  state: the range cache is empty afterwards and every other member is as before.
\<close>

theorem InvalidateCache_ClearCache_equal:
  "InvalidateCache s = ClearCache s \<and>
   transient_cache (InvalidateCache s) = [] \<and>
   register_file (InvalidateCache s) = register_file s \<and>
   memory (InvalidateCache s) = memory s \<and>
   transient_buffer (InvalidateCache s) = transient_buffer s \<and>
   host_base (InvalidateCache s) = host_base s"
  by (simp add: InvalidateCache_def ClearCache_def)

section \<open>Allocation of transient data\<close>

lemma AllocateTransientData_cache:
  "transient_cache (snd (AllocateTransientData rb s length' fence)) = transient_cache s"
  by (auto simp: AllocateTransientData_def TryAllocateTransientData_def Let_def
      split: prod.splits option.splits)

lemma AllocateTransientData_frame:
  "host_base (snd (AllocateTransientData rb s length' fence)) = host_base s \<and>
   memory (snd (AllocateTransientData rb s length' fence)) = memory s \<and>
   register_file (snd (AllocateTransientData rb s length' fence)) = register_file s"
  by (auto simp: AllocateTransientData_def TryAllocateTransientData_def Let_def
      split: prod.splits option.splits)

lemma probe_simps:
  "Acquire (probe rb) x l f =
     (fst (Acquire rb (fst x) l f), (snd (Acquire rb (fst x) l f), snd x @ [AcquireCall l f]))"
  "rb_Scavenge (probe rb) x = (rb_Scavenge rb (fst x), snd x @ [ScavengeCall])"
  "rb_Flush (probe rb) x a b = (rb_Flush rb (fst x) a b, snd x @ [FlushCall a b])"
  "gpu_buffer (probe rb) x = gpu_buffer rb (fst x)"
  by (cases x; simp add: probe_def)+


lemma AllocateTransientData_probe_calls:
  "snd (transient_buffer (snd (AllocateTransientData (probe rb) s n f))) =
     snd (transient_buffer s) @ [AcquireCall n f] \<or>
   snd (transient_buffer (snd (AllocateTransientData (probe rb) s n f))) =
     snd (transient_buffer s) @ [AcquireCall n f, ScavengeCall, AcquireCall n f]"
  by (cases "transient_buffer s")
     (auto simp: AllocateTransientData_def TryAllocateTransientData_def probe_def Let_def
      split: prod.splits option.splits)

lemma AllocateTransientData_probe_exhausted:
  assumes "fst (AllocateTransientData (probe rb) s n f) = VK_WHOLE_SIZE"
  shows "snd (transient_buffer (snd (AllocateTransientData (probe rb) s n f))) =
     snd (transient_buffer s) @ [AcquireCall n f, ScavengeCall, AcquireCall n f]"
  using assms
  by (cases "transient_buffer s")
     (auto simp: AllocateTransientData_def TryAllocateTransientData_def probe_def Let_def
      split: prod.splits option.splits if_splits)


lemma example_allocation:
  "cursor + unat n \<le> capacity \<Longrightarrow> of_nat cursor \<noteq> VK_WHOLE_SIZE \<Longrightarrow>
   AllocateTransientData (probe (bump_buffer capacity)) (example_state cursor c) n f =
     (of_nat cursor, (example_state cursor c)\<lparr>transient_buffer := (cursor + unat n, [AcquireCall n f])\<rparr>)"
  by (simp add: AllocateTransientData_def TryAllocateTransientData_def probe_def bump_buffer_def
      example_state_def Let_def)

text \<open>
  Claim C8.  Under the probe, \<open>AllocateTransientData\<close> first makes one \<open>Acquire\<close>.
  If that attempt yields an offset other than \<open>VK_WHOLE_SIZE\<close>, the offset is returned
  and nothing else was called.  If it yields \<open>VK_WHOLE_SIZE\<close>, the calls are exactly
  \<open>Acquire\<close>, \<open>Scavenge\<close>, \<open>Acquire\<close>, and the result is whatever the second
  attempt yields: its offset, or \<open>VK_WHOLE_SIZE\<close> when it failed too.
\<close>

theorem AllocateTransientData_one_scavenge_one_retry:
  "let b = fst (transient_buffer s); log = snd (transient_buffer s);
       r1 = Acquire rb b length' fence;
       a1 = (case fst r1 of Some x \<Rightarrow> x | None \<Rightarrow> VK_WHOLE_SIZE);
       r2 = Acquire rb (rb_Scavenge rb (snd r1)) length' fence;
       a2 = (case fst r2 of Some x \<Rightarrow> x | None \<Rightarrow> VK_WHOLE_SIZE);
       res = AllocateTransientData (probe rb) s length' fence
   in (a1 \<noteq> VK_WHOLE_SIZE \<longrightarrow>
         fst res = a1 \<and>
         transient_buffer (snd res) = (snd r1, log @ [AcquireCall length' fence])) \<and>
      (a1 = VK_WHOLE_SIZE \<longrightarrow>
         fst res = a2 \<and>
         transient_buffer (snd res) =
           (snd r2, log @ [AcquireCall length' fence, ScavengeCall, AcquireCall length' fence]))"
  by (cases "transient_buffer s")
     (auto simp: AllocateTransientData_def TryAllocateTransientData_def probe_def Let_def
      split: prod.splits option.splits)

theorem AllocateTransientData_one_scavenge_one_retry_witness:
  "fst (AllocateTransientData (probe (bump_buffer 128)) (example_state 64 []) 64 7) = 64 \<and>
   snd (transient_buffer
     (snd (AllocateTransientData (probe (bump_buffer 128)) (example_state 64 []) 64 7))) =
     [AcquireCall 64 7] \<and>
   fst (AllocateTransientData (probe (bump_buffer 128)) (example_state 64 []) 128 7) = 0 \<and>
   snd (transient_buffer
     (snd (AllocateTransientData (probe (bump_buffer 128)) (example_state 64 []) 128 7))) =
     [AcquireCall 128 7, ScavengeCall, AcquireCall 128 7] \<and>
   fst (AllocateTransientData (probe (bump_buffer 128)) (example_state 64 []) 129 7) =
     VK_WHOLE_SIZE \<and>
   snd (transient_buffer
     (snd (AllocateTransientData (probe (bump_buffer 128)) (example_state 64 []) 129 7))) =
     [AcquireCall 129 7, ScavengeCall, AcquireCall 129 7]"
  using AllocateTransientData_one_scavenge_one_retry
          [of "example_state 64 []" "bump_buffer 128" 64 7]
        AllocateTransientData_one_scavenge_one_retry
          [of "example_state 64 []" "bump_buffer 128" 128 7]
        AllocateTransientData_one_scavenge_one_retry
          [of "example_state 64 []" "bump_buffer 128" 129 7]
  by (simp add: Let_def bump_buffer_def example_state_def VK_WHOLE_SIZE_def)

text \<open>
  Claim C2.  The scavenge inside \<open>AllocateTransientData\<close> does not clear the range
  cache.  With 64 of 128 bytes in use and one cached range, a request for 128 bytes fails
  at first, the circular buffer is scavenged, the retry is granted offset 0, and the
  cached range is still there.
\<close>

theorem AllocateTransientData_scavenge_keeps_cache:
  "transient_cache (snd (AllocateTransientData (probe (bump_buffer 128))
       (example_state 64 [(0x1000, (64, 0))]) 128 7)) = [(0x1000, (64, 0))] \<and>
   snd (transient_buffer (snd (AllocateTransientData (probe (bump_buffer 128))
       (example_state 64 [(0x1000, (64, 0))]) 128 7))) =
     [AcquireCall 128 7, ScavengeCall, AcquireCall 128 7] \<and>
   fst (AllocateTransientData (probe (bump_buffer 128))
       (example_state 64 [(0x1000, (64, 0))]) 128 7) = 0"
  by (simp add: AllocateTransientData_def TryAllocateTransientData_def probe_def Let_def
      bump_buffer_def example_state_def VK_WHOLE_SIZE_def)

text \<open>\<open>BufferCache::Scavenge\<close>, in contrast, clears the range cache in the call in which
  it scavenges the circular buffer, and it scavenges once.\<close>

lemma Scavenge_clears_cache:
  "transient_cache (Scavenge rb s) = [] \<and>
   transient_buffer (Scavenge (probe rb) t) =
     (rb_Scavenge rb (fst (transient_buffer t)), snd (transient_buffer t) @ [ScavengeCall])"
  by (simp add: Scavenge_def probe_simps Let_def)

section \<open>Lookup in the range cache\<close>

lemma upper_bound_split:
  "map_sorted c \<Longrightarrow>
     take (upper_bound c a) c = filter (\<lambda>e. fst e \<le> a) c \<and>
     drop (upper_bound c a) c = filter (\<lambda>e. a < fst e) c"
proof (induction c)
  case Nil
  show ?case by (simp add: upper_bound_def)
next
  case (Cons e es)
  have s: "map_sorted es" and gt: "\<forall>x\<in>set es. fst e < fst x"
    using Cons.prems by (auto simp: map_sorted_def)
  show ?case
  proof (cases "fst e \<le> a")
    case True
    then show ?thesis using Cons.IH[OF s] by (simp add: upper_bound_def)
  next
    case False
    then have "\<forall>x\<in>set es. \<not> fst x \<le> a" "\<forall>x\<in>set es. a < fst x" using gt by auto
    then have "filter (\<lambda>e. fst e \<le> a) es = []" "filter (\<lambda>e. a < fst e) es = es"
      by (simp_all add: filter_empty_conv filter_id_conv)
    then show ?thesis using False by (simp add: upper_bound_def)
  qed
qed

lemma upper_bound_le: "upper_bound c a \<le> length c"
  by (simp add: upper_bound_def length_takeWhile_le)

lemma map_sorted_nth_less:
  "map_sorted c \<Longrightarrow> i < j \<Longrightarrow> j < length c \<Longrightarrow> fst (c ! i) < fst (c ! j)"
  using sorted_wrt_nth_less[of "(<)" "map fst c" i j] by (simp add: map_sorted_def)

lemma map_sorted_nth_le:
  "map_sorted c \<Longrightarrow> i \<le> j \<Longrightarrow> j < length c \<Longrightarrow> fst (c ! i) \<le> fst (c ! j)"
  using map_sorted_nth_less[of c i j] by (cases "i = j") auto

lemma before_upper_bound:
  assumes "map_sorted c" "e \<in> set c" "fst e \<le> a"
  shows "\<exists>i < upper_bound c a. c ! i = e"
proof -
  have "e \<in> set (take (upper_bound c a) c)"
    using assms upper_bound_split[of c a] by simp
  then show ?thesis using upper_bound_le[of c a] by (auto simp: in_set_conv_nth)
qed

lemma at_upper_bound_pred:
  assumes "map_sorted c" "upper_bound c a \<noteq> 0"
  shows "greatest_at_or_below c a (c ! (upper_bound c a - 1))"
proof -
  let ?n = "upper_bound c a"
  have nle: "?n \<le> length c" by (rule upper_bound_le)
  have "c ! (?n - 1) \<in> set (take ?n c)"
    using assms(2) nle by (auto simp: in_set_conv_nth intro!: exI[of _ "?n - 1"])
  then have in1: "c ! (?n - 1) \<in> set c" "fst (c ! (?n - 1)) \<le> a"
    using upper_bound_split[OF assms(1), of a] by auto
  have "fst e' \<le> fst (c ! (?n - 1))" if h: "e' \<in> set c" "fst e' \<le> a" for e'
  proof -
    obtain i where i: "i < ?n" "c ! i = e'"
      using before_upper_bound[OF assms(1) h] by blast
    then show ?thesis
      using map_sorted_nth_le[OF assms(1), of i "?n - 1"] nle assms(2) by auto
  qed
  then show ?thesis using in1 by (auto simp: greatest_at_or_below_def)
qed

lemma greatest_at_or_below_unique:
  assumes "map_sorted c" "greatest_at_or_below c a e" "greatest_at_or_below c a e'"
  shows "e = e'"
proof -
  have k: "fst e = fst e'"
    using assms(2,3) by (auto simp: greatest_at_or_below_def intro: antisym)
  obtain i j where ij: "i < length c" "c ! i = e" "j < length c" "c ! j = e'"
    using assms(2,3) by (auto simp: greatest_at_or_below_def in_set_conv_nth)
  have "i = j"
    using map_sorted_nth_less[OF assms(1), of i j] map_sorted_nth_less[OF assms(1), of j i] ij k
    by (cases i j rule: linorder_cases) auto
  then show ?thesis using ij by simp
qed

lemma predecessor_position:
  assumes "map_sorted c" "greatest_at_or_below c a e"
  shows "upper_bound c a \<noteq> 0 \<and> c ! (upper_bound c a - 1) = e"
proof -
  obtain i where "i < upper_bound c a"
    using before_upper_bound[OF assms(1), of e a] assms(2)
    by (auto simp: greatest_at_or_below_def)
  then have n0: "upper_bound c a \<noteq> 0" by simp
  then show ?thesis
    using greatest_at_or_below_unique[OF assms(1) at_upper_bound_pred[OF assms(1) n0] assms(2)]
    by simp
qed

lemma no_predecessor_position:
  assumes "map_sorted c" "\<forall>e. \<not> greatest_at_or_below c a e"
  shows "upper_bound c a = 0"
  using at_upper_bound_pred[OF assms(1), of a] assms(2) by blast

lemma FindCachedTransientData_char:
  assumes "map_sorted c" and "unat a + unat l < 2 ^ 32"
    and "\<forall>e. greatest_at_or_below c a e \<longrightarrow> entry_end e < 2 ^ 32"
  shows "(\<forall>e. greatest_at_or_below c a e \<longrightarrow>
            FindCachedTransientData c a l =
              (if covers e a l then snd (snd e) + ucast (a - fst e) else VK_WHOLE_SIZE)) \<and>
         ((\<forall>e. \<not> greatest_at_or_below c a e) \<longrightarrow> FindCachedTransientData c a l = VK_WHOLE_SIZE)"
proof (intro conjI allI impI)
  fix e assume g: "greatest_at_or_below c a e"
  then have pos: "upper_bound c a \<noteq> 0" "c ! (upper_bound c a - 1) = e"
    using predecessor_position[OF assms(1) g] by auto
  have ne: "c \<noteq> []" using g by (auto simp: greatest_at_or_below_def)
  have ee: "entry_end e < 2 ^ 32" using assms(3) g by blast
  have le: "fst e \<le> a" using g by (simp add: greatest_at_or_below_def)
  have "(a + l \<le> fst e + fst (snd e)) = covers e a l"
    using assms(2) ee le
    by (simp add: covers_def entry_end_def word_le_nat_alt unat_word_ariths)
  then show "FindCachedTransientData c a l =
      (if covers e a l then snd (snd e) + ucast (a - fst e) else VK_WHOLE_SIZE)"
    using pos ne by (simp add: FindCachedTransientData_def Let_def)
next
  assume "\<forall>e. \<not> greatest_at_or_below c a e"
  then show "FindCachedTransientData c a l = VK_WHOLE_SIZE"
    using no_predecessor_position[OF assms(1), of a]
    by (simp add: FindCachedTransientData_def Let_def)
qed

text \<open>
  Claim C4.  \<open>FindCachedTransientData\<close> forms \<open>guest_address + guest_length\<close> in 32
  bits.  When that sum wraps, the test that guards the branch commented
  \<^emph>\<open>This data is contained within some existing transient data\<close> succeeds for a range
  that the entry does not contain, and the lookup reports a hit.  The entry at \<open>0x10\<close> of
  length \<open>0x20\<close> answers the range of \<open>0xFFFFFFF0\<close> bytes at \<open>0x20\<close> (first
  conjunct); the entry at \<open>0xFFFFFF00\<close> of length \<open>0x80\<close>, whose own end stays below
  \<open>2^32\<close>, answers the \<open>0x20\<close> bytes at \<open>0xFFFFFFF0\<close> with offset \<open>0xF5\<close>
  (second conjunct).  In both the entry is the one with the greatest guest address at or
  below the address looked up.
\<close>

theorem FindCachedTransientData_wrapped_hit:
  "(FindCachedTransientData [(0x10, (0x20, 0x100))] 0x20 0xFFFFFFF0 = 0x110 \<and>
    (0x110 :: 64 word) \<noteq> VK_WHOLE_SIZE \<and>
    greatest_at_or_below [(0x10, (0x20, 0x100))] 0x20 (0x10, (0x20, 0x100)) \<and>
    \<not> covers (0x10, (0x20, 0x100)) 0x20 0xFFFFFFF0) \<and>
   (FindCachedTransientData [(0xFFFFFF00, (0x80, 5))] 0xFFFFFFF0 0x20 = 0xF5 \<and>
    (0xF5 :: 64 word) \<noteq> VK_WHOLE_SIZE \<and>
    greatest_at_or_below [(0xFFFFFF00, (0x80, 5))] 0xFFFFFFF0 (0xFFFFFF00, (0x80, 5)) \<and>
    \<not> covers (0xFFFFFF00, (0x80, 5)) 0xFFFFFFF0 0x20 \<and>
    entry_end (0xFFFFFF00, (0x80, 5)) < 2 ^ 32)"
  by (simp add: FindCachedTransientData_def upper_bound_def VK_WHOLE_SIZE_def
      greatest_at_or_below_def covers_def entry_end_def)

text \<open>Read at the second entry: the lookup returns an offset although the range ends
  behind the end of the entry.\<close>

theorem FindCachedTransientData_wrapped_hit_witness:
  "FindCachedTransientData [(0xFFFFFF00, (0x80, 5))] 0xFFFFFFF0 0x20 = 0xF5 \<and>
   (0xF5 :: 64 word) \<noteq> VK_WHOLE_SIZE \<and>
   entry_end (0xFFFFFF00, (0x80, 5)) < unat (0xFFFFFFF0 :: 32 word) + unat (0x20 :: 32 word)"
  using FindCachedTransientData_wrapped_hit by (simp add: covers_def entry_end_def)

text \<open>
  Where no sum wraps, the lookup is the test on the predecessor.  Let neither
  \<open>address + length\<close> nor the end of the entry with the greatest guest address at or
  below \<open>address\<close> exceed 32 bits.  If that entry exists and its interval contains
  \<open>[address, address + length)\<close>, \<open>FindCachedTransientData\<close> returns
  \<open>bufferOffset + (address - guestAddress)\<close>; if it exists and does not contain the
  range, or if there is no such entry, the result is \<open>VK_WHOLE_SIZE\<close>.
\<close>

theorem FindCachedTransientData_predecessor:
  assumes "map_sorted c" and "unat a + unat l < 2 ^ 32"
    and "\<forall>e. greatest_at_or_below c a e \<longrightarrow> entry_end e < 2 ^ 32"
  shows "(\<forall>e. greatest_at_or_below c a e \<longrightarrow>
            FindCachedTransientData c a l =
              (if covers e a l then snd (snd e) + ucast (a - fst e) else VK_WHOLE_SIZE)) \<and>
         ((\<forall>e. \<not> greatest_at_or_below c a e) \<longrightarrow> FindCachedTransientData c a l = VK_WHOLE_SIZE)"
  using assms by (rule FindCachedTransientData_char)

theorem FindCachedTransientData_predecessor_witness:
  "map_sorted [(0x10, (0x20, 0x100)), (0x40, (0x10, 0x200))] \<and>
   greatest_at_or_below [(0x10, (0x20, 0x100)), (0x40, (0x10, 0x200))] 0x18 (0x10, (0x20, 0x100)) \<and>
   covers (0x10, (0x20, 0x100)) 0x18 8 \<and>
   FindCachedTransientData [(0x10, (0x20, 0x100)), (0x40, (0x10, 0x200))] 0x18 8 = 0x108 \<and>
   greatest_at_or_below [(0x10, (0x20, 0x100)), (0x40, (0x10, 0x200))] 0x48 (0x40, (0x10, 0x200)) \<and>
   \<not> covers (0x40, (0x10, 0x200)) 0x48 0x10 \<and>
   FindCachedTransientData [(0x10, (0x20, 0x100)), (0x40, (0x10, 0x200))] 0x48 0x10 = VK_WHOLE_SIZE \<and>
   (\<forall>e. \<not> greatest_at_or_below [(0x10, (0x20, 0x100)), (0x40, (0x10, 0x200))] 0x08 e) \<and>
   FindCachedTransientData [(0x10, (0x20, 0x100)), (0x40, (0x10, 0x200))] 0x08 4 = VK_WHOLE_SIZE"
proof -
  let ?c = "[(0x10, (0x20, 0x100)), (0x40, (0x10, 0x200))] :: cache"
  have s: "map_sorted ?c" by (simp add: map_sorted_def)
  have e: "\<forall>e. greatest_at_or_below ?c a e \<longrightarrow> entry_end e < 2 ^ 32" for a
    by (auto simp: greatest_at_or_below_def entry_end_def)
  have g1: "greatest_at_or_below ?c 0x18 (0x10, (0x20, 0x100))"
    and g2: "greatest_at_or_below ?c 0x48 (0x40, (0x10, 0x200))"
    and g3: "\<forall>e. \<not> greatest_at_or_below ?c 0x08 e"
    by (auto simp: greatest_at_or_below_def)
  have c1: "covers (0x10, (0x20, 0x100)) 0x18 8" and c2: "\<not> covers (0x40, (0x10, 0x200)) 0x48 0x10"
    by (simp_all add: covers_def entry_end_def)
  have n: "unat (0x18 :: 32 word) + unat (8 :: 32 word) < 2 ^ 32"
    "unat (0x48 :: 32 word) + unat (0x10 :: 32 word) < 2 ^ 32"
    "unat (0x08 :: 32 word) + unat (4 :: 32 word) < 2 ^ 32" by simp_all
  show ?thesis
    using FindCachedTransientData_predecessor[OF s n(1) e[of "0x18"]]
      FindCachedTransientData_predecessor[OF s n(2) e[of "0x48"]]
      FindCachedTransientData_predecessor[OF s n(3) e[of "0x08"]]
      s g1 g2 g3 c1 c2
    by simp
qed

section \<open>Insertion into the range cache\<close>

lemma erase_contained_dropWhile:
  "it \<le> length c \<Longrightarrow>
   erase_contained c a l it =
     take it c @ dropWhile (\<lambda>e. fst e + fst (snd e) \<le> a + l) (drop it c)"
proof (induction c a l it rule: erase_contained.induct)
  case (1 c a l it)
  show ?case
  proof (cases "it < length c")
    case False
    then show ?thesis using "1.prems" by (simp add: erase_contained.simps)
  next
    case True
    then have d: "drop it c = c ! it # drop (Suc it) c" by (simp add: Cons_nth_drop_Suc)
    show ?thesis
    proof (cases "fst (c ! it) + fst (snd (c ! it)) \<le> a + l")
      case False
      then show ?thesis
        using True d id_take_nth_drop[OF True] by (simp add: erase_contained.simps[of c])
    next
      case c: True
      have len: "it \<le> length (map_erase c it)" using True by (simp add: map_erase_def)
      have "erase_contained c a l it = erase_contained (map_erase c it) a l it"
        using True c by (simp add: erase_contained.simps[of c])
      also have "\<dots> = take it (map_erase c it) @
          dropWhile (\<lambda>e. fst e + fst (snd e) \<le> a + l) (drop it (map_erase c it))"
        using "1.IH"[OF True c len] .
      also have "take it (map_erase c it) = take it c"
        using True by (simp add: map_erase_def)
      also have "drop it (map_erase c it) = drop (Suc it) c"
        using True by (simp add: map_erase_def)
      finally show ?thesis using c d by simp
    qed
  qed
qed

lemma map_assign_split:
  "map_sorted c \<Longrightarrow>
   map_assign c a v = filter (\<lambda>e. fst e < a) c @ (a, v) # filter (\<lambda>e. a < fst e) c"
proof (induction c)
  case Nil
  show ?case by simp
next
  case (Cons e es)
  have s: "map_sorted es" and gt: "\<forall>x\<in>set es. fst e < fst x"
    using Cons.prems by (auto simp: map_sorted_def)
  show ?case
  proof (cases "a \<le> fst e")
    case True
    then have "\<forall>x\<in>set es. \<not> fst x < a" "\<forall>x\<in>set es. a < fst x" using gt by auto
    then have "filter (\<lambda>e. fst e < a) es = []" "filter (\<lambda>e. a < fst e) es = es"
      by (simp_all add: filter_empty_conv filter_id_conv)
    then show ?thesis using True by auto
  next
    case False
    then show ?thesis using Cons.IH[OF s] by auto
  qed
qed

lemma map_sorted_filter: "map_sorted c \<Longrightarrow> map_sorted (filter P c)"
  by (simp add: map_sorted_def sorted_wrt_map sorted_wrt_filter)

lemma map_assign_sorted:
  assumes "map_sorted c" shows "map_sorted (map_assign c a v)"
proof -
  have "sorted_wrt (\<lambda>x y. fst x < fst y) c" using assms by (simp add: map_sorted_def sorted_wrt_map)
  then have "sorted_wrt (\<lambda>x y. fst x < fst y)
      (filter (\<lambda>e. fst e < a) c @ (a, v) # filter (\<lambda>e. a < fst e) c)"
    by (auto simp: sorted_wrt_append sorted_wrt_filter)
  then show ?thesis unfolding map_sorted_def sorted_wrt_map map_assign_split[OF assms] .
qed

lemma CacheTransientData_split:
  assumes "map_sorted c"
  shows "CacheTransientData c a l off =
     filter (\<lambda>e. fst e < a) c @ (a, (l, off)) #
       dropWhile (\<lambda>e. fst e + fst (snd e) \<le> a + l) (filter (\<lambda>e. a < fst e) c)"
proof -
  let ?c1 = "map_assign c a (l, off)"
  have s1: "map_sorted ?c1" by (rule map_assign_sorted[OF assms])
  have sp: "?c1 = filter (\<lambda>e. fst e < a) c @ (a, (l, off)) # filter (\<lambda>e. a < fst e) c"
    by (rule map_assign_split[OF assms])
  have q1: "filter (\<lambda>x. fst x < a \<and> fst x \<le> a) c = filter (\<lambda>e. fst e < a) c"
    by (rule filter_cong) auto
  have q2: "filter (\<lambda>x. a < fst x \<and> fst x \<le> a) c = []"
    by (auto simp: filter_empty_conv)
  have q3: "filter (\<lambda>x. fst x < a \<and> a < fst x) c = []"
    by (auto simp: filter_empty_conv)
  have f1: "filter (\<lambda>e. fst e \<le> a) ?c1 = filter (\<lambda>e. fst e < a) c @ [(a, (l, off))]"
    by (subst sp) (simp add: q1 q2)
  have f2: "filter (\<lambda>e. a < fst e) ?c1 = filter (\<lambda>e. a < fst e) c"
    by (subst sp) (simp add: q3)
  show ?thesis
    unfolding CacheTransientData_def Let_def
    using erase_contained_dropWhile[OF upper_bound_le, of ?c1 a l a]
      upper_bound_split[OF s1, of a] f1 f2 by simp
qed


lemma dropWhile_sorted_above:
  "sorted_wrt (\<lambda>x y. f x < f y) xs \<Longrightarrow> e \<in> set (dropWhile (\<lambda>x. f x \<le> n) xs) \<Longrightarrow>
   (n::nat) < f e"
  by (induction xs) (auto split: if_splits)

lemma ends_increasing_filter: "ends_increasing c \<Longrightarrow> ends_increasing (filter P c)"
  by (simp add: ends_increasing_def sorted_wrt_map sorted_wrt_filter)

lemma ends_mono:
  assumes "map_sorted c" "ends_increasing c" "e' \<in> set c" "e \<in> set c" "fst e' \<le> fst e"
  shows "entry_end e' \<le> entry_end e"
proof -
  obtain i j where ij: "i < length c" "c ! i = e'" "j < length c" "c ! j = e"
    using assms(3,4) by (auto simp: in_set_conv_nth)
  have "\<not> j < i" using map_sorted_nth_less[OF assms(1), of j i] ij assms(5) by auto
  then have "i \<le> j" by simp
  then show ?thesis
    using sorted_wrt_nth_less[of "(<)" "map entry_end c" i j] assms(2) ij
    by (cases "i = j") (auto simp: ends_increasing_def)
qed

lemma erase_condition_nat:
  assumes "unat a + unat l < 2 ^ 32" "\<forall>e\<in>set c. entry_end e < 2 ^ 32"
  shows "dropWhile (\<lambda>e. fst e + fst (snd e) \<le> a + l) (filter P c) =
         dropWhile (\<lambda>e. entry_end e \<le> unat a + unat l) (filter P c)"
proof (rule dropWhile_cong[OF refl])
  fix x assume "x \<in> set (filter P c)"
  then have "entry_end x < 2 ^ 32" using assms(2) by simp
  then show "(fst x + fst (snd x) \<le> a + l) = (entry_end x \<le> unat a + unat l)"
    using assms(1) by (simp add: entry_end_def word_le_nat_alt unat_word_ariths)
qed

lemma CacheTransientData_set:
  assumes "map_sorted c" "ends_increasing c"
    and "unat a + unat l < 2 ^ 32" "\<forall>e\<in>set c. entry_end e < 2 ^ 32"
    and "e \<in> set (CacheTransientData c a l off)"
  shows "(e \<in> set c \<and> fst e < a) \<or> e = (a, (l, off)) \<or>
         (e \<in> set c \<and> a < fst e \<and> unat a + unat l < entry_end e)"
proof -
  have sw: "sorted_wrt (\<lambda>x y. entry_end x < entry_end y) (filter (\<lambda>e. a < fst e) c)"
    using ends_increasing_filter[OF assms(2)] by (simp add: ends_increasing_def sorted_wrt_map)
  have "e \<in> set (filter (\<lambda>e. fst e < a) c @ (a, (l, off)) #
      dropWhile (\<lambda>e. entry_end e \<le> unat a + unat l) (filter (\<lambda>e. a < fst e) c))"
    using assms(5)
    unfolding CacheTransientData_split[OF assms(1)] erase_condition_nat[OF assms(3,4)] .
  then have "e \<in> set (filter (\<lambda>e. fst e < a) c) \<or> e = (a, (l, off)) \<or>
      e \<in> set (dropWhile (\<lambda>e. entry_end e \<le> unat a + unat l) (filter (\<lambda>e. a < fst e) c))"
    by (simp only: set_append set_simps Un_iff insert_iff)
  then consider "e \<in> set (filter (\<lambda>e. fst e < a) c)" | "e = (a, (l, off))"
    | "e \<in> set (dropWhile (\<lambda>e. entry_end e \<le> unat a + unat l) (filter (\<lambda>e. a < fst e) c))"
    by blast
  then show ?thesis
  proof cases
    case 3
    have "e \<in> set (filter (\<lambda>e. a < fst e) c)" using set_dropWhileD[OF 3] .
    then show ?thesis using dropWhile_sorted_above[OF sw 3] by simp
  qed auto
qed

lemma CacheTransientData_sorted:
  assumes "map_sorted c" shows "map_sorted (CacheTransientData c a l off)"
proof -
  let ?F = "filter (\<lambda>e. fst e < a) c"
  let ?G = "filter (\<lambda>e. a < fst e) c"
  let ?D = "dropWhile (\<lambda>e. fst e + fst (snd e) \<le> a + l) ?G"
  have sc: "sorted_wrt (\<lambda>x y. fst x < fst y) c"
    using assms by (simp add: map_sorted_def sorted_wrt_map)
  have D: "a < fst y" if "y \<in> set ?D" for y
  proof -
    have "y \<in> set ?G" using that by (rule set_dropWhileD)
    then show ?thesis by simp
  qed
  have sG: "sorted_wrt (\<lambda>x y. fst x < fst y) ?G" using sc by (rule sorted_wrt_filter)
  have sD: "sorted_wrt (\<lambda>x y. fst x < fst y) ?D"
    unfolding dropWhile_eq_drop using sG by (rule sorted_wrt_drop)
  have sF: "sorted_wrt (\<lambda>x y. fst x < fst y) ?F" using sc by (rule sorted_wrt_filter)
  have s2: "sorted_wrt (\<lambda>x y. fst x < fst y) ((a, (l, off)) # ?D)"
  proof (rule iffD2[OF sorted_wrt.simps(2)], intro conjI ballI)
    show "sorted_wrt (\<lambda>x y. fst x < fst y) ?D" by (rule sD)
    fix y assume "y \<in> set ?D"
    then have "a < fst y" by (rule D)
    then show "fst (a, (l, off)) < fst y" by (simp only: fst_conv)
  qed
  have cross: "fst x < fst y" if x: "x \<in> set ?F" and y: "y \<in> set ((a, (l, off)) # ?D)" for x y
  proof -
    have xa: "fst x < a" using x by simp
    from y have "y = (a, (l, off)) \<or> y \<in> set ?D" by simp
    then show ?thesis
    proof
      assume "y = (a, (l, off))" then show ?thesis using xa by simp
    next
      assume "y \<in> set ?D"
      then have "a < fst y" by (rule D)
      with xa show ?thesis by (rule less_trans)
    qed
  qed
  have "sorted_wrt (\<lambda>x y. fst x < fst y) (?F @ (a, (l, off)) # ?D)"
  proof (rule iffD2[OF sorted_wrt_append], intro conjI ballI)
    show "sorted_wrt (\<lambda>x y. fst x < fst y) ?F" by (rule sF)
    show "sorted_wrt (\<lambda>x y. fst x < fst y) ((a, (l, off)) # ?D)" by (rule s2)
    fix x y assume "x \<in> set ?F" "y \<in> set ((a, (l, off)) # ?D)"
    then show "fst x < fst y" by (rule cross)
  qed
  then have "sorted_wrt (<) (map fst (?F @ (a, (l, off)) # ?D))"
    unfolding sorted_wrt_map .
  then show ?thesis
    unfolding map_sorted_def by (subst CacheTransientData_split[OF assms])
qed

lemma CacheTransientData_new_entry:
  "map_sorted c \<Longrightarrow> (a, (l, off)) \<in> set (CacheTransientData c a l off)"
  by (simp add: CacheTransientData_split)


text \<open>
  Claim C3.  \<open>CacheTransientData\<close> leaves entries in the cache that lie within the range
  it inserts, against its comment \<^emph>\<open>Erase any entries contained within\<close>.  The sum
  \<open>guest_address + guest_length\<close> is formed in 32 bits, so a range that ends at \<open>2^32\<close>
  evicts nothing: with \<open>[0xFFFFFFF8, 0xFFFFFFFC)\<close> cached, the insertion of
  \<open>[0xFFFFFFF0, 2^32)\<close> leaves that entry in place, and a lookup returns its offset
  (second conjunct).  And the erase loop stops at the first entry that is not contained
  in the new range, so a contained entry behind it stays: after the insertions of
  \<open>[0x100, 0x1100)\<close> and \<open>[0x200, 0x210)\<close>, the insertion of \<open>[0x50, 0x350)\<close> leaves
  \<open>[0x200, 0x210)\<close> in place, and a lookup returns its offset (first conjunct).
\<close>

theorem CacheTransientData_contained_entry_survives:
  "((0x200, (0x10, 2)) \<in> set (CacheTransientData (CacheTransientData (CacheTransientData []
        0x100 0x1000 1) 0x200 0x10 2) 0x50 0x300 3) \<and>
    (0x50 :: 32 word) \<le> 0x200 \<and>
    entry_end (0x200, (0x10, 2)) \<le> unat (0x50 :: 32 word) + unat (0x300 :: 32 word) \<and>
    FindCachedTransientData (CacheTransientData (CacheTransientData (CacheTransientData []
        0x100 0x1000 1) 0x200 0x10 2) 0x50 0x300 3) 0x200 0x10 = 2) \<and>
   ((0xFFFFFFF8, (4, 7)) \<in> set (CacheTransientData [(0xFFFFFFF8, (4, 7))] 0xFFFFFFF0 0x10 9) \<and>
    (0xFFFFFFF0 :: 32 word) \<le> 0xFFFFFFF8 \<and>
    entry_end (0xFFFFFFF8, (4, 7)) \<le> unat (0xFFFFFFF0 :: 32 word) + unat (0x10 :: 32 word) \<and>
    FindCachedTransientData (CacheTransientData [(0xFFFFFFF8, (4, 7))] 0xFFFFFFF0 0x10 9)
        0xFFFFFFF8 4 = 7)"
  by (simp add: CacheTransientData_def upper_bound_def erase_contained.simps map_erase_def
      FindCachedTransientData_def entry_end_def Let_def)

text \<open>
  Where no sum wraps and the entries do not nest, the eviction is complete.  Let the
  interval ends of the cache increase strictly with the start addresses, and let neither
  \<open>address + length\<close> nor the end of any entry exceed 32 bits.  Then after
  \<open>CacheTransientData(address, length, offset)\<close> the only entry that starts at or after
  \<open>address\<close> and ends at or before \<open>address + length\<close> is the new one, and a lookup of
  the range of any previous entry of that kind is answered from the new entry.
\<close>

theorem CacheTransientData_evicts_contained:
  assumes "map_sorted c" "ends_increasing c"
    and "unat a + unat l < 2 ^ 32" "\<forall>e\<in>set c. entry_end e < 2 ^ 32"
  shows "(\<forall>e \<in> set (CacheTransientData c a l off).
            a \<le> fst e \<and> entry_end e \<le> unat a + unat l \<longrightarrow> e = (a, (l, off))) \<and>
         (\<forall>e \<in> set c. a \<le> fst e \<and> entry_end e \<le> unat a + unat l \<longrightarrow>
            FindCachedTransientData (CacheTransientData c a l off) (fst e) (fst (snd e)) =
              off + ucast (fst e - a))"
proof (intro conjI ballI impI)
  fix e assume "e \<in> set (CacheTransientData c a l off)"
    and "a \<le> fst e \<and> entry_end e \<le> unat a + unat l"
  then show "e = (a, (l, off))"
    using CacheTransientData_set[OF assms, of e off] by auto
next
  fix e assume e: "e \<in> set c" and h: "a \<le> fst e \<and> entry_end e \<le> unat a + unat l"
  let ?c' = "CacheTransientData c a l off"
  have s': "map_sorted ?c'" by (rule CacheTransientData_sorted[OF assms(1)])
  have "fst e' \<le> a" if m: "e' \<in> set ?c'" and le: "fst e' \<le> fst e" for e'
  proof -
    consider "e' \<in> set c \<and> fst e' < a" | "e' = (a, (l, off))"
      | "e' \<in> set c \<and> a < fst e' \<and> unat a + unat l < entry_end e'"
      using CacheTransientData_set[OF assms m] by blast
    then show ?thesis
    proof cases
      case 3
      then have "entry_end e' \<le> entry_end e"
        using ends_mono[OF assms(1,2) _ e le] by simp
      then show ?thesis using 3 h by simp
    qed auto
  qed
  then have g: "greatest_at_or_below ?c' (fst e) (a, (l, off))"
    using CacheTransientData_new_entry[OF assms(1)] h
    by (auto simp: greatest_at_or_below_def)
  have cv: "covers (a, (l, off)) (fst e) (fst (snd e))"
    using h by (simp add: covers_def entry_end_def word_le_nat_alt)
  have n1: "unat (fst e) + unat (fst (snd e)) < 2 ^ 32"
    using assms(4) e by (auto simp: entry_end_def)
  have n2: "\<forall>x. greatest_at_or_below ?c' (fst e) x \<longrightarrow> entry_end x < 2 ^ 32"
    using greatest_at_or_below_unique[OF s' g] assms(3) by (auto simp: entry_end_def)
  show "FindCachedTransientData ?c' (fst e) (fst (snd e)) = off + ucast (fst e - a)"
    using FindCachedTransientData_char[OF s' n1 n2] g cv by auto
qed


theorem CacheTransientData_evicts_contained_witness:
  "map_sorted [(0x100, (0x10, 1)), (0x200, (0x10, 2)), (0x400, (0x10, 3))] \<and>
   ends_increasing [(0x100, (0x10, 1)), (0x200, (0x10, 2)), (0x400, (0x10, 3))] \<and>
   (0x200, (0x10, 2)) \<notin>
     set (CacheTransientData [(0x100, (0x10, 1)), (0x200, (0x10, 2)), (0x400, (0x10, 3))]
            0x80 0x200 9) \<and>
   FindCachedTransientData
     (CacheTransientData [(0x100, (0x10, 1)), (0x200, (0x10, 2)), (0x400, (0x10, 3))]
        0x80 0x200 9) 0x200 0x10 = 0x189"
proof -
  let ?c = "[(0x100, (0x10, 1)), (0x200, (0x10, 2)), (0x400, (0x10, 3))] :: cache"
  have h1: "map_sorted ?c" by (simp add: map_sorted_def)
  have h2: "ends_increasing ?c" by (simp add: ends_increasing_def entry_end_def)
  have h3: "unat (0x80 :: 32 word) + unat (0x200 :: 32 word) < 2 ^ 32" by simp
  have h4: "\<forall>e\<in>set ?c. entry_end e < 2 ^ 32" by (simp add: entry_end_def)
  note t = CacheTransientData_evicts_contained[OF h1 h2 h3 h4, of 9]
  have a: "(0x200, (0x10, 2)) \<in> set (CacheTransientData ?c 0x80 0x200 9) \<longrightarrow>
       (0x200, (0x10, 2)) = ((0x80, (0x200, 9)) :: cache_entry)"
    using t by (auto simp: entry_end_def)
  have b: "FindCachedTransientData (CacheTransientData ?c 0x80 0x200 9) 0x200 0x10 = 0x189"
    using t by (simp add: entry_end_def)
  show ?thesis using h1 h2 a b by simp
qed

text \<open>The premise of the amended claim is an invariant of the insertions that follow a
  lookup miss: when the lookup of \<open>[address, address + length)\<close> misses, every entry
  at or below \<open>address\<close> ends before \<open>address + length\<close>, and the insertion keeps
  the ends increasing.\<close>

lemma lookup_miss_ends_below:
  assumes "map_sorted c" "ends_increasing c" "unat a + unat l < 2 ^ 32"
    and "\<forall>e\<in>set c. entry_end e < 2 ^ 32 \<and> unat (snd (snd e)) < 2 ^ 63"
    and "FindCachedTransientData c a l = VK_WHOLE_SIZE"
    and "e \<in> set c" "fst e \<le> a"
  shows "entry_end e < unat a + unat l"
proof -
  let ?p = "c ! (upper_bound c a - 1)"
  obtain i where "i < upper_bound c a" using before_upper_bound[OF assms(1,6,7)] by blast
  then have n0: "upper_bound c a \<noteq> 0" by simp
  have g: "greatest_at_or_below c a ?p" by (rule at_upper_bound_pred[OF assms(1) n0])
  then have p: "?p \<in> set c" "fst ?p \<le> a" "fst e \<le> fst ?p"
    using assms(6,7) by (auto simp: greatest_at_or_below_def)
  have n2: "\<forall>x. greatest_at_or_below c a x \<longrightarrow> entry_end x < 2 ^ 32"
    using assms(4) by (auto simp: greatest_at_or_below_def)
  have F: "FindCachedTransientData c a l =
      (if covers ?p a l then snd (snd ?p) + ucast (a - fst ?p) else VK_WHOLE_SIZE)"
    using FindCachedTransientData_char[OF assms(1,3) n2] g by blast
  have "\<not> covers ?p a l"
  proof
    assume "covers ?p a l"
    then have eq: "snd (snd ?p) + ucast (a - fst ?p) = VK_WHOLE_SIZE"
      using F assms(5) by simp
    have o: "unat (snd (snd ?p)) < 2 ^ 63" using assms(4) p(1) by blast
    have "unat (a - fst ?p) < 2 ^ 32" using unsigned_less[of "a - fst ?p", where 'a = nat] by simp
    then have d: "unat (ucast (a - fst ?p) :: 64 word) < 2 ^ 32"
      by (simp add: unsigned_ucast_eq take_bit_nat_eq_self)
    have "unat (snd (snd ?p)) + unat (ucast (a - fst ?p) :: 64 word) < 2 ^ 64"
      using o d by simp
    then have "unat (snd (snd ?p) + ucast (a - fst ?p)) =
        unat (snd (snd ?p)) + unat (ucast (a - fst ?p) :: 64 word)"
      using unat_add_lem[of "snd (snd ?p)" "ucast (a - fst ?p)"] by simp
    then have "unat (snd (snd ?p) + ucast (a - fst ?p)) < 2 ^ 63 + 2 ^ 32"
      using o d by simp
    moreover have "unat VK_WHOLE_SIZE = 2 ^ 64 - 1" by (simp add: VK_WHOLE_SIZE_def unsigned_minus_1_eq_mask mask_eq_exp_minus_1)
    ultimately show False using eq by simp
  qed
  then have "entry_end ?p < unat a + unat l"
    using p(2) by (simp add: covers_def word_le_nat_alt)
  moreover have "entry_end e \<le> entry_end ?p" by (rule ends_mono[OF assms(1,2,6) p(1) p(3)])
  ultimately show ?thesis by simp
qed

lemma CacheTransientData_ends_increasing:
  assumes "map_sorted c" "ends_increasing c" "unat a + unat l < 2 ^ 32"
    and "\<forall>e\<in>set c. entry_end e < 2 ^ 32"
    and miss: "\<forall>e\<in>set c. fst e \<le> a \<longrightarrow> entry_end e < unat a + unat l"
  shows "ends_increasing (CacheTransientData c a l off)"
proof -
  let ?N = "unat a + unat l"
  let ?F = "filter (\<lambda>e. fst e < a) c"
  let ?G = "filter (\<lambda>e. a < fst e) c"
  let ?D = "dropWhile (\<lambda>e. entry_end e \<le> ?N) ?G"
  let ?R = "\<lambda>x y. entry_end x < entry_end y"
  have sc: "sorted_wrt ?R c" using assms(2) by (simp add: ends_increasing_def sorted_wrt_map)
  have sG: "sorted_wrt ?R ?G" using sc by (rule sorted_wrt_filter)
  have sF: "sorted_wrt ?R ?F" using sc by (rule sorted_wrt_filter)
  have sD: "sorted_wrt ?R ?D" unfolding dropWhile_eq_drop using sG by (rule sorted_wrt_drop)
  have D: "?N < entry_end y" if "y \<in> set ?D" for y
    using dropWhile_sorted_above[OF sG that] .
  have new: "entry_end (a, (l, off)) = ?N" by (simp add: entry_end_def)
  have s2: "sorted_wrt ?R ((a, (l, off)) # ?D)"
  proof (rule iffD2[OF sorted_wrt.simps(2)], intro conjI ballI)
    show "sorted_wrt ?R ?D" by (rule sD)
    fix y assume "y \<in> set ?D"
    then show "entry_end (a, (l, off)) < entry_end y" unfolding new by (rule D)
  qed
  have Fb: "entry_end x < ?N" if "x \<in> set ?F" for x
  proof -
    have "x \<in> set c" "fst x \<le> a" using that by auto
    then show ?thesis using miss by blast
  qed
  have "sorted_wrt ?R (?F @ (a, (l, off)) # ?D)"
  proof (rule iffD2[OF sorted_wrt_append], intro conjI ballI)
    show "sorted_wrt ?R ?F" by (rule sF)
    show "sorted_wrt ?R ((a, (l, off)) # ?D)" by (rule s2)
    fix x y assume x: "x \<in> set ?F" and y: "y \<in> set ((a, (l, off)) # ?D)"
    from y have "y = (a, (l, off)) \<or> y \<in> set ?D" by simp
    then have "?N \<le> entry_end y"
    proof
      assume "y = (a, (l, off))" then show ?thesis by (simp add: new)
    next
      assume "y \<in> set ?D" then show ?thesis using D[of y] by simp
    qed
    then show "entry_end x < entry_end y" using Fb[OF x] by simp
  qed
  then show ?thesis
    unfolding ends_increasing_def sorted_wrt_map
      CacheTransientData_split[OF assms(1)] erase_condition_nat[OF assms(3,4)] .
qed


section \<open>Bytes, words and the copy loops\<close>

text \<open>A word is its bytes in host order put together again; storing a word and loading
  it gives the word back, and a store changes only its own bytes.\<close>

lemma le32_roundtrip:
  "(ucast (ucast v :: 8 word) :: 32 word) OR push_bit 8 (ucast (ucast (drop_bit 8 v) :: 8 word)) OR
   push_bit 16 (ucast (ucast (drop_bit 16 v) :: 8 word)) OR
   push_bit 24 (ucast (ucast (drop_bit 24 v) :: 8 word)) = (v :: 32 word)"
proof (rule bit_word_eqI)
  fix n assume "n < LENGTH(32)"
  then have n: "n < 32" by simp
  consider "n < 8" | "8 \<le> n" "n < 16" | "16 \<le> n" "n < 24" | "24 \<le> n" "n < 32"
    using n by linarith
  then show "bit (ucast (ucast v :: 8 word) OR push_bit 8 (ucast (ucast (drop_bit 8 v) :: 8 word)) OR
     push_bit 16 (ucast (ucast (drop_bit 16 v) :: 8 word)) OR
     push_bit 24 (ucast (ucast (drop_bit 24 v) :: 8 word)) :: 32 word) n = bit v n"
    by cases (auto simp: bit_simps)
qed

lemma load_u32_cong: "(\<And>k. k < 4 \<Longrightarrow> m (p + k) = m' (p' + k)) \<Longrightarrow> load_u32 m p = load_u32 m' p'"
proof -
  assume h: "\<And>k. k < 4 \<Longrightarrow> m (p + k) = m' (p' + k)"
  have "m p = m' p'" "m (p + 1) = m' (p' + 1)" "m (p + 2) = m' (p' + 2)" "m (p + 3) = m' (p' + 3)"
    using h[of 0] h[of 1] h[of 2] h[of 3] by simp_all
  then show ?thesis by (simp add: load_u32_def)
qed

lemma le16_roundtrip:
  "(ucast (ucast v :: 8 word) :: 16 word) OR push_bit 8 (ucast (ucast (drop_bit 8 v) :: 8 word)) =
   (v :: 16 word)"
proof (rule bit_word_eqI)
  fix n assume "n < LENGTH(16)"
  then consider "n < 8" | "8 \<le> n" "n < 16" by fastforce
  then show "bit (ucast (ucast v :: 8 word) OR
      push_bit 8 (ucast (ucast (drop_bit 8 v) :: 8 word)) :: 16 word) n = bit v n"
    by cases (auto simp: bit_simps)
qed

lemma load_u16_cong:
  "m p = m' p' \<Longrightarrow> m (p + 1) = m' (p' + 1) \<Longrightarrow> load_u16 m p = load_u16 m' p'"
  by (simp add: load_u16_def)

lemma load_u16_store_u16: "load_u16 (store_u16 m p v) p = v"
  using le16_roundtrip[of v] by (simp add: load_u16_def store_u16_def)

lemma store_u16_other: "a < p \<or> p + 2 \<le> a \<Longrightarrow> store_u16 m p v a = m a"
  by (auto simp: store_u16_def)

lemma load_u32_store_u32: "load_u32 (store_u32 m p v) p = v"
  using le32_roundtrip[of v] by (simp add: load_u32_def store_u32_def)

lemma store_u32_other: "a < p \<or> p + 4 \<le> a \<Longrightarrow> store_u32 m p v a = m a"
  by (auto simp: store_u32_def)

text \<open>A scalar loop from index \<open>i\<close> leaves the bytes outside
  \<open>[dp + w * i, dp + w * count)\<close> alone (\<open>w\<close> the element width) and writes \<open>f\<close> of the
  source element to every element from \<open>i\<close> on.\<close>

lemma loop_u16_frame:
  "a < dp + 2 * i \<or> dp + 2 * count \<le> a \<Longrightarrow> loop_u16 f dest dp src sp count i a = dest a"
proof (induction f dest dp src sp count i rule: loop_u16.induct)
  case (1 f dest dp src sp count i)
  show ?case
  proof (cases "i < count")
    case False
    then show ?thesis by (simp add: loop_u16.simps[of f dest])
  next
    case True
    have "loop_u16 f dest dp src sp count i a =
        loop_u16 f (store_u16 dest (dp + 2 * i) (f (load_u16 src (sp + 2 * i))))
          dp src sp count (i + 1) a"
      using True by (simp add: loop_u16.simps[of f dest])
    also have "\<dots> = store_u16 dest (dp + 2 * i) (f (load_u16 src (sp + 2 * i))) a"
      using "1.IH"[OF True] "1.prems" by auto
    also have "\<dots> = dest a"
      using "1.prems" True by (intro store_u16_other) auto
    finally show ?thesis .
  qed
qed

lemma loop_u16_elem:
  "i \<le> j \<Longrightarrow> j < count \<Longrightarrow>
   load_u16 (loop_u16 f dest dp src sp count i) (dp + 2 * j) = f (load_u16 src (sp + 2 * j))"
proof (induction f dest dp src sp count i rule: loop_u16.induct)
  case (1 f dest dp src sp count i)
  have lt: "i < count" using "1.prems" by simp
  let ?d = "store_u16 dest (dp + 2 * i) (f (load_u16 src (sp + 2 * i)))"
  have unf: "loop_u16 f dest dp src sp count i = loop_u16 f ?d dp src sp count (i + 1)"
    using lt by (simp add: loop_u16.simps[of f dest])
  show ?case
  proof (cases "j = i")
    case True
    have "load_u16 (loop_u16 f ?d dp src sp count (i + 1)) (dp + 2 * i) = load_u16 ?d (dp + 2 * i)"
      by (rule load_u16_cong; rule loop_u16_frame; simp)
    then show ?thesis unfolding unf True by (simp add: load_u16_store_u16)
  next
    case False
    then have "i + 1 \<le> j" using "1.prems" by simp
    then show ?thesis unfolding unf using "1.IH"[OF lt] "1.prems" by simp
  qed
qed

lemma loop_u32_frame:
  "a < dp + 4 * i \<or> dp + 4 * count \<le> a \<Longrightarrow> loop_u32 f dest dp src sp count i a = dest a"
proof (induction f dest dp src sp count i rule: loop_u32.induct)
  case (1 f dest dp src sp count i)
  show ?case
  proof (cases "i < count")
    case False
    then show ?thesis by (simp add: loop_u32.simps[of f dest])
  next
    case True
    have "loop_u32 f dest dp src sp count i a =
        loop_u32 f (store_u32 dest (dp + 4 * i) (f (load_u32 src (sp + 4 * i))))
          dp src sp count (i + 1) a"
      using True by (simp add: loop_u32.simps[of f dest])
    also have "\<dots> = store_u32 dest (dp + 4 * i) (f (load_u32 src (sp + 4 * i))) a"
      using "1.IH"[OF True] "1.prems" by auto
    also have "\<dots> = dest a"
      using "1.prems" True by (intro store_u32_other) auto
    finally show ?thesis .
  qed
qed

lemma loop_u32_elem:
  "i \<le> j \<Longrightarrow> j < count \<Longrightarrow>
   load_u32 (loop_u32 f dest dp src sp count i) (dp + 4 * j) = f (load_u32 src (sp + 4 * j))"
proof (induction f dest dp src sp count i rule: loop_u32.induct)
  case (1 f dest dp src sp count i)
  have lt: "i < count" using "1.prems" by simp
  let ?d = "store_u32 dest (dp + 4 * i) (f (load_u32 src (sp + 4 * i)))"
  have unf: "loop_u32 f dest dp src sp count i = loop_u32 f ?d dp src sp count (i + 1)"
    using lt by (simp add: loop_u32.simps[of f dest])
  show ?case
  proof (cases "j = i")
    case True
    have "load_u32 (loop_u32 f ?d dp src sp count (i + 1)) (dp + 4 * i) = load_u32 ?d (dp + 4 * i)"
      by (rule load_u32_cong, rule loop_u32_frame) simp
    then show ?thesis unfolding unf True by (simp add: load_u32_store_u32)
  next
    case False
    then have "i + 1 \<le> j" using "1.prems" by simp
    then show ?thesis unfolding unf using "1.IH"[OF lt] "1.prems" by simp
  qed
qed

text \<open>Swapping the bytes of an element exchanges its bytes in memory, and two elements
  are equal exactly when their bytes are.\<close>

lemma le16_bytes:
  "(ucast (le16 b0 b1) :: 8 word) = b0" "(ucast (drop_bit 8 (le16 b0 b1)) :: 8 word) = b1"
  unfolding le16_def by (rule bit_word_eqI; auto simp: bit_simps dest: bit_imp_le_length)+

lemma le16_eq_iff: "le16 b0 b1 = c \<longleftrightarrow> b0 = ucast c \<and> b1 = ucast (drop_bit 8 c)"
proof
  assume "le16 b0 b1 = c"
  then show "b0 = ucast c \<and> b1 = ucast (drop_bit 8 c)" using le16_bytes[of b0 b1] by auto
next
  assume "b0 = ucast c \<and> b1 = ucast (drop_bit 8 c)"
  then show "le16 b0 b1 = c" using le16_roundtrip[of c] by (simp add: le16_def)
qed

lemma byte_swap_16_le16: "byte_swap_16 (le16 b0 b1) = le16 b1 b0"
  unfolding le16_def byte_swap_16_def by (rule bit_word_eqI) (auto simp: bit_simps dest: bit_imp_le_length)

lemma le16_ones: "le16 0xFF 0xFF = 0xFFFF"
  by (simp add: le16_def)

lemma le32_bytes:
  "(ucast (le32 b0 b1 b2 b3) :: 8 word) = b0"
  "(ucast (drop_bit 8 (le32 b0 b1 b2 b3)) :: 8 word) = b1"
  "(ucast (drop_bit 16 (le32 b0 b1 b2 b3)) :: 8 word) = b2"
  "(ucast (drop_bit 24 (le32 b0 b1 b2 b3)) :: 8 word) = b3"
  unfolding le32_def by (rule bit_word_eqI; auto simp: bit_simps dest: bit_imp_le_length)+

lemma le32_eq_iff:
  "le32 b0 b1 b2 b3 = c \<longleftrightarrow>
     b0 = ucast c \<and> b1 = ucast (drop_bit 8 c) \<and> b2 = ucast (drop_bit 16 c) \<and>
     b3 = ucast (drop_bit 24 c)"
proof
  assume "le32 b0 b1 b2 b3 = c"
  then show "b0 = ucast c \<and> b1 = ucast (drop_bit 8 c) \<and> b2 = ucast (drop_bit 16 c) \<and>
     b3 = ucast (drop_bit 24 c)" using le32_bytes[of b0 b1 b2 b3] by auto
next
  assume "b0 = ucast c \<and> b1 = ucast (drop_bit 8 c) \<and> b2 = ucast (drop_bit 16 c) \<and>
     b3 = ucast (drop_bit 24 c)"
  then show "le32 b0 b1 b2 b3 = c" using le32_roundtrip[of c] by (simp add: le32_def)
qed

lemma mask_ff00: "(0xFF00 :: 32 word) = push_bit 8 (mask 8)"
  by (simp add: mask_eq_exp_minus_1 push_bit_eq_mult)

lemma byte_swap_32_le32: "byte_swap_32 (le32 b0 b1 b2 b3) = le32 b3 b2 b1 b0"
  unfolding le32_def byte_swap_32_def mask_ff00
proof (rule bit_word_eqI)
  fix n assume "n < LENGTH(32)"
  then consider "n < 8" | "8 \<le> n" "n < 16" | "16 \<le> n" "n < 24" | "24 \<le> n" "n < 32"
    by fastforce
  then show "bit (push_bit 24 (ucast b0 OR push_bit 8 (ucast b1) OR push_bit 16 (ucast b2) OR
          push_bit 24 (ucast b3)) OR
        push_bit 8 ((ucast b0 OR push_bit 8 (ucast b1) OR push_bit 16 (ucast b2) OR
          push_bit 24 (ucast b3)) AND push_bit 8 (mask 8)) OR
        (drop_bit 8 (ucast b0 OR push_bit 8 (ucast b1) OR push_bit 16 (ucast b2) OR
          push_bit 24 (ucast b3)) AND push_bit 8 (mask 8)) OR
        drop_bit 24 (ucast b0 OR push_bit 8 (ucast b1) OR push_bit 16 (ucast b2) OR
          push_bit 24 (ucast b3)) :: 32 word) n =
      bit (ucast b3 OR push_bit 8 (ucast b2) OR push_bit 16 (ucast b1) OR
          push_bit 24 (ucast b0) :: 32 word) n"
    by cases (auto simp: bit_simps dest: bit_imp_le_length)
qed

lemma le32_ones: "le32 0xFF 0xFF 0xFF 0xFF = 0xFFFFFFFF"
  by (simp add: le32_def)


text \<open>The intrinsics on vectors written out byte by byte.\<close>

lemma upt_16: "[0..<16] = [0, 1, 2, 3, 4, 5, 6, 7, 8, 9, 10, 11, 12, 13, 14, 15]"
  by code_simp

lemma upt_8: "[0..<8] = [0, 1, 2, 3, 4, 5, 6, 7]"
  by code_simp

lemma upt_4: "[0..<4] = [0, 1, 2, 3]"
  by code_simp

lemma replicate_8: "replicate 8 x = [x, x, x, x, x, x, x, x]"
  by (simp add: eval_nat_numeral)

lemma replicate_4: "replicate 4 x = [x, x, x, x]"
  by (simp add: eval_nat_numeral)

lemma mm_loadu_si128_bytes:
  "mm_loadu_si128 m p =
     [m p, m (p + 1), m (p + 2), m (p + 3), m (p + 4), m (p + 5), m (p + 6), m (p + 7), m (p
     + 8), m (p + 9), m (p + 10), m (p + 11), m (p + 12), m (p + 13), m (p + 14), m (p + 15)]"
  by (simp add: mm_loadu_si128_def upt_16)

lemma shuffle_swap_16:
  "mm_shuffle_epi8 [x0, x1, x2, x3, x4, x5, x6, x7, x8, x9, x10, x11, x12, x13, x14, x15]
     (mm_set_epi8 0x0E 0x0F 0x0C 0x0D 0x0A 0x0B 0x08 0x09 0x06 0x07 0x04 0x05 0x02 0x03 0x00 0x01) =
   [x1, x0, x3, x2, x5, x4, x7, x6, x9, x8, x11, x10, x13, x12, x15, x14]"
  by (simp add: mm_shuffle_epi8_def mm_set_epi8_def)

lemma shuffle_swap_32:
  "mm_shuffle_epi8 [x0, x1, x2, x3, x4, x5, x6, x7, x8, x9, x10, x11, x12, x13, x14, x15]
     (mm_set_epi8 0x0C 0x0D 0x0E 0x0F 0x08 0x09 0x0A 0x0B 0x04 0x05 0x06 0x07 0x00 0x01 0x02 0x03) =
   [x3, x2, x1, x0, x7, x6, x5, x4, x11, x10, x9, x8, x15, x14, x13, x12]"
  by (simp add: mm_shuffle_epi8_def mm_set_epi8_def)

lemma mm_set1_epi16_bytes:
  "mm_set1_epi16 c =
     [ucast c, ucast (drop_bit 8 c), ucast c, ucast (drop_bit 8 c), ucast c, ucast (drop_bit
     8 c), ucast c, ucast (drop_bit 8 c), ucast c, ucast (drop_bit 8 c), ucast c, ucast
     (drop_bit 8 c), ucast c, ucast (drop_bit 8 c), ucast c, ucast (drop_bit 8 c)]"
  by (simp add: mm_set1_epi16_def replicate_8)

lemma mm_set1_epi32_bytes:
  "mm_set1_epi32 c =
     [ucast c, ucast (drop_bit 8 c), ucast (drop_bit 16 c), ucast (drop_bit 24 c), ucast c,
     ucast (drop_bit 8 c), ucast (drop_bit 16 c), ucast (drop_bit 24 c), ucast c, ucast
     (drop_bit 8 c), ucast (drop_bit 16 c), ucast (drop_bit 24 c), ucast c, ucast (drop_bit 8
     c), ucast (drop_bit 16 c), ucast (drop_bit 24 c)]"
  by (simp add: mm_set1_epi32_def replicate_4)

lemma mm_cmpeq_epi16_bytes:
  "mm_cmpeq_epi16 [y0, y1, y2, y3, y4, y5, y6, y7, y8, y9, y10, y11, y12, y13, y14, y15]
     [z0, z1, z2, z3, z4, z5, z6, z7, z8, z9, z10, z11, z12, z13, z14, z15] =
   [if y0 = z0 \<and> y1 = z1 then 0xFF else 0, if y0 = z0 \<and> y1 = z1 then 0xFF else 0,
   if y2 = z2 \<and> y3 = z3 then 0xFF else 0, if y2 = z2 \<and> y3 = z3 then 0xFF else 0,
   if y4 = z4 \<and> y5 = z5 then 0xFF else 0, if y4 = z4 \<and> y5 = z5 then 0xFF else 0,
   if y6 = z6 \<and> y7 = z7 then 0xFF else 0, if y6 = z6 \<and> y7 = z7 then 0xFF else 0,
   if y8 = z8 \<and> y9 = z9 then 0xFF else 0, if y8 = z8 \<and> y9 = z9 then 0xFF else 0,
   if y10 = z10 \<and> y11 = z11 then 0xFF else 0, if y10 = z10 \<and> y11 = z11 then 0xFF
   else 0, if y12 = z12 \<and> y13 = z13 then 0xFF else 0, if y12 = z12 \<and> y13 = z13
   then 0xFF else 0, if y14 = z14 \<and> y15 = z15 then 0xFF else 0, if y14 = z14 \<and>
   y15 = z15 then 0xFF else 0]"
  by (simp add: mm_cmpeq_epi16_def upt_8)

lemma mm_cmpeq_epi32_bytes:
  "mm_cmpeq_epi32 [y0, y1, y2, y3, y4, y5, y6, y7, y8, y9, y10, y11, y12, y13, y14, y15]
     [z0, z1, z2, z3, z4, z5, z6, z7, z8, z9, z10, z11, z12, z13, z14, z15] =
   [if y0 = z0 \<and> y1 = z1 \<and> y2 = z2 \<and> y3 = z3 then 0xFF else 0, if y0 = z0
   \<and> y1 = z1 \<and> y2 = z2 \<and> y3 = z3 then 0xFF else 0, if y0 = z0 \<and> y1 = z1
   \<and> y2 = z2 \<and> y3 = z3 then 0xFF else 0, if y0 = z0 \<and> y1 = z1 \<and> y2 = z2
   \<and> y3 = z3 then 0xFF else 0, if y4 = z4 \<and> y5 = z5 \<and> y6 = z6 \<and> y7 = z7
   then 0xFF else 0, if y4 = z4 \<and> y5 = z5 \<and> y6 = z6 \<and> y7 = z7 then 0xFF else
   0, if y4 = z4 \<and> y5 = z5 \<and> y6 = z6 \<and> y7 = z7 then 0xFF else 0, if y4 = z4
   \<and> y5 = z5 \<and> y6 = z6 \<and> y7 = z7 then 0xFF else 0, if y8 = z8 \<and> y9 = z9
   \<and> y10 = z10 \<and> y11 = z11 then 0xFF else 0, if y8 = z8 \<and> y9 = z9 \<and> y10
   = z10 \<and> y11 = z11 then 0xFF else 0, if y8 = z8 \<and> y9 = z9 \<and> y10 = z10
   \<and> y11 = z11 then 0xFF else 0, if y8 = z8 \<and> y9 = z9 \<and> y10 = z10 \<and> y11
   = z11 then 0xFF else 0, if y12 = z12 \<and> y13 = z13 \<and> y14 = z14 \<and> y15 = z15
   then 0xFF else 0, if y12 = z12 \<and> y13 = z13 \<and> y14 = z14 \<and> y15 = z15 then
   0xFF else 0, if y12 = z12 \<and> y13 = z13 \<and> y14 = z14 \<and> y15 = z15 then 0xFF
   else 0, if y12 = z12 \<and> y13 = z13 \<and> y14 = z14 \<and> y15 = z15 then 0xFF else
   0]"
  by (simp add: mm_cmpeq_epi32_def upt_4)

lemma mm_or_si128_bytes:
  "mm_or_si128 [y0, y1, y2, y3, y4, y5, y6, y7, y8, y9, y10, y11, y12, y13, y14, y15]
     [z0, z1, z2, z3, z4, z5, z6, z7, z8, z9, z10, z11, z12, z13, z14, z15] =
   [y0 OR z0, y1 OR z1, y2 OR z2, y3 OR z3, y4 OR z4, y5 OR z5, y6 OR z6, y7 OR z7, y8 OR
   z8, y9 OR z9, y10 OR z10, y11 OR z11, y12 OR z12, y13 OR z13, y14 OR z14, y15 OR z15]"
  by (simp add: mm_or_si128_def)

lemma mm_storeu_si128_other:
  "a < p \<or> p + 16 \<le> a \<Longrightarrow> mm_storeu_si128 m p v a = m a"
  by (auto simp: mm_storeu_si128_def)

lemma mm_storeu_si128_at: "k < 16 \<Longrightarrow> mm_storeu_si128 m p v (p + k) = v ! k"
  by (simp add: mm_storeu_si128_def)

lemma load_u16_le16: "load_u16 m p = le16 (m p) (m (p + 1))"
  by (simp add: load_u16_def le16_def)

lemma load_u32_le32: "load_u32 m p = le32 (m p) (m (p + 1)) (m (p + 2)) (m (p + 3))"
  by (simp add: load_u32_def le32_def)

lemma byte_or_ff: "(x :: 8 word) OR 0xFF = 0xFF"
proof -
  have "(0xFF :: 8 word) = - 1" by simp
  then show ?thesis by (simp only: bit.disj_one_right)
qed

text \<open>One lane of a vector step: the shuffled bytes, or-ed with the comparison mask,
  are the swapped element, replaced by all-ones when it equals \<open>cmp_value\<close>.\<close>

lemma substituted_le16:
  "le16 (b1 OR (if b1 = ucast c \<and> b0 = ucast (drop_bit 8 c) then 0xFF else 0))
        (b0 OR (if b1 = ucast c \<and> b0 = ucast (drop_bit 8 c) then 0xFF else 0)) =
   (if byte_swap_16 (le16 b0 b1) = c then 0xFFFF else byte_swap_16 (le16 b0 b1))"
proof (cases "b1 = ucast c \<and> b0 = ucast (drop_bit 8 c)")
  case True
  have e: "le16 b1 b0 = c" using True by (simp only: le16_eq_iff)
  show ?thesis
    unfolding byte_swap_16_le16 if_P[OF True] if_P[OF e] byte_or_ff le16_ones ..
next
  case False
  have e: "le16 b1 b0 \<noteq> c" using False by (simp only: le16_eq_iff not_False_eq_True)
  show ?thesis
    unfolding byte_swap_16_le16 if_not_P[OF False] if_not_P[OF e] by simp
qed

lemma substituted_le32:
  "le32 (b3 OR (if b3 = ucast c \<and> b2 = ucast (drop_bit 8 c) \<and> b1 = ucast (drop_bit 16 c) \<and>
                   b0 = ucast (drop_bit 24 c) then 0xFF else 0))
        (b2 OR (if b3 = ucast c \<and> b2 = ucast (drop_bit 8 c) \<and> b1 = ucast (drop_bit 16 c) \<and>
                   b0 = ucast (drop_bit 24 c) then 0xFF else 0))
        (b1 OR (if b3 = ucast c \<and> b2 = ucast (drop_bit 8 c) \<and> b1 = ucast (drop_bit 16 c) \<and>
                   b0 = ucast (drop_bit 24 c) then 0xFF else 0))
        (b0 OR (if b3 = ucast c \<and> b2 = ucast (drop_bit 8 c) \<and> b1 = ucast (drop_bit 16 c) \<and>
                   b0 = ucast (drop_bit 24 c) then 0xFF else 0)) =
   (if byte_swap_32 (le32 b0 b1 b2 b3) = c then 0xFFFFFFFF else byte_swap_32 (le32 b0 b1 b2 b3))"
proof (cases "b3 = ucast c \<and> b2 = ucast (drop_bit 8 c) \<and> b1 = ucast (drop_bit 16 c) \<and>
                   b0 = ucast (drop_bit 24 c)")
  case True
  have e: "le32 b3 b2 b1 b0 = c" using True by (simp only: le32_eq_iff)
  show ?thesis
    unfolding byte_swap_32_le32 if_P[OF True] if_P[OF e] byte_or_ff le32_ones ..
next
  case False
  have e: "le32 b3 b2 b1 b0 \<noteq> c" using False by (simp only: le32_eq_iff not_False_eq_True)
  show ?thesis
    unfolding byte_swap_32_le32 if_not_P[OF False] if_not_P[OF e] by simp
qed

lemma simd_out_16_lane:
  assumes "k < 8" and X: "X = [x0, x1, x2, x3, x4, x5, x6, x7, x8, x9, x10, x11, x12, x13, x14, x15]"
  shows "le16 (simd_out_16 X c ! (2 * k)) (simd_out_16 X c ! (2 * k + 1)) =
     (if byte_swap_16 (le16 (X ! (2 * k)) (X ! (2 * k + 1))) = c then 0xFFFF
      else byte_swap_16 (le16 (X ! (2 * k)) (X ! (2 * k + 1))))"
proof -
  have k: "k = 0 \<or> k = 1 \<or> k = 2 \<or> k = 3 \<or> k = 4 \<or> k = 5 \<or> k = 6 \<or> k = 7"
    using assms(1) by arith
  have o: "simd_out_16 X c ! (2 * k) =
        X ! (2 * k + 1) OR (if X ! (2 * k + 1) = ucast c \<and> X ! (2 * k) = ucast (drop_bit 8 c)
                            then 0xFF else 0)"
      "simd_out_16 X c ! (2 * k + 1) =
        X ! (2 * k) OR (if X ! (2 * k + 1) = ucast c \<and> X ! (2 * k) = ucast (drop_bit 8 c)
                        then 0xFF else 0)"
    unfolding X simd_out_16_def Let_def shuffle_swap_16 mm_set1_epi16_bytes
      mm_cmpeq_epi16_bytes mm_or_si128_bytes
    using k by (elim disjE; simp)+
  show ?thesis unfolding o by (rule substituted_le16)
qed

lemma simd_out_32_lane:
  assumes "k < 4" and X: "X = [x0, x1, x2, x3, x4, x5, x6, x7, x8, x9, x10, x11, x12, x13, x14, x15]"
  shows "le32 (simd_out_32 X c ! (4 * k)) (simd_out_32 X c ! (4 * k + 1))
            (simd_out_32 X c ! (4 * k + 2)) (simd_out_32 X c ! (4 * k + 3)) =
     (if byte_swap_32 (le32 (X ! (4 * k)) (X ! (4 * k + 1)) (X ! (4 * k + 2)) (X ! (4 * k + 3))) = c
      then 0xFFFFFFFF
      else byte_swap_32 (le32 (X ! (4 * k)) (X ! (4 * k + 1)) (X ! (4 * k + 2)) (X ! (4 * k + 3))))"
proof -
  let ?m = "if X ! (4 * k + 3) = ucast c \<and> X ! (4 * k + 2) = ucast (drop_bit 8 c) \<and>
      X ! (4 * k + 1) = ucast (drop_bit 16 c) \<and> X ! (4 * k) = ucast (drop_bit 24 c)
      then 0xFF else (0 :: 8 word)"
  have k: "k = 0 \<or> k = 1 \<or> k = 2 \<or> k = 3" using assms(1) by arith
  have o: "simd_out_32 X c ! (4 * k) = X ! (4 * k + 3) OR ?m"
      "simd_out_32 X c ! (4 * k + 1) = X ! (4 * k + 2) OR ?m"
      "simd_out_32 X c ! (4 * k + 2) = X ! (4 * k + 1) OR ?m"
      "simd_out_32 X c ! (4 * k + 3) = X ! (4 * k) OR ?m"
    unfolding X simd_out_32_def Let_def shuffle_swap_32 mm_set1_epi32_bytes
      mm_cmpeq_epi32_bytes mm_or_si128_bytes
    using k by (elim disjE; simp)+
  show ?thesis unfolding o by (rule substituted_le32)
qed


subsection \<open>The elements written by the vector loops and by the scalar loops\<close>

lemma mm_loadu_si128_nth: "k < 16 \<Longrightarrow> mm_loadu_si128 m p ! k = m (p + k)"
  by (simp add: mm_loadu_si128_def)

text \<open>The vector loop of \<open>copy_cmp_swap_16_unaligned\<close> from index \<open>i\<close> stops at
  \<open>i + 8 * ((count - i) div 8)\<close>, leaves the bytes outside its range alone and writes
  the substituted swap to every element of its range.\<close>

lemma simd_16_unfold:
  "i + 8 \<le> count \<Longrightarrow>
   copy_cmp_swap_16_simd dest dp src sp shufmask_16 (mm_set1_epi16 c) count i =
     copy_cmp_swap_16_simd
       (mm_storeu_si128 dest (dp + 2 * i) (simd_out_16 (mm_loadu_si128 src (sp + 2 * i)) c))
       dp src sp shufmask_16 (mm_set1_epi16 c) count (i + 8)"
  by (subst copy_cmp_swap_16_simd.simps) (simp add: simd_out_16_def shufmask_16_def Let_def)

lemma simd_16_stop:
  "\<not> i + 8 \<le> count \<Longrightarrow>
   copy_cmp_swap_16_simd dest dp src sp shufmask cmpval count i = (dest, i)"
  by (subst copy_cmp_swap_16_simd.simps) simp

lemma stride_8:
  assumes "i + 8 \<le> count"
  shows "(i + 8) + 8 * ((count - (i + 8)) div 8) = i + 8 * ((count - i) div (8::nat))"
proof -
  obtain d where d: "count = i + 8 + d" using assms le_Suc_ex by blast
  have "(8 + d) div 8 = Suc (d div 8)" using div_add_self1[of 8 d] by simp
  then show ?thesis unfolding d by simp
qed

lemma simd_16_index:
  "snd (copy_cmp_swap_16_simd dest dp src sp shufmask_16 (mm_set1_epi16 c) count i) =
     i + 8 * ((count - i) div 8)"
proof (induction "count - i" arbitrary: dest i rule: less_induct)
  case less
  show ?case
  proof (cases "i + 8 \<le> count")
    case False
    then show ?thesis by (simp add: simd_16_stop)
  next
    case True
    have m: "count - (i + 8) < count - i" using True by simp
    show ?thesis
      unfolding simd_16_unfold[OF True] less.hyps[OF m] by (rule stride_8[OF True])
  qed
qed

lemma simd_16_frame:
  "a < dp + 2 * i \<or> dp + 2 * count \<le> a \<Longrightarrow>
   fst (copy_cmp_swap_16_simd dest dp src sp shufmask_16 (mm_set1_epi16 c) count i) a = dest a"
proof (induction "count - i" arbitrary: dest i rule: less_induct)
  case less
  show ?case
  proof (cases "i + 8 \<le> count")
    case False
    then show ?thesis by (simp add: simd_16_stop)
  next
    case True
    let ?d = "mm_storeu_si128 dest (dp + 2 * i) (simd_out_16 (mm_loadu_si128 src (sp + 2 * i)) c)"
    have m: "count - (i + 8) < count - i" using True by simp
    have p: "a < dp + 2 * (i + 8) \<or> dp + 2 * count \<le> a" using less.prems by auto
    have q: "a < dp + 2 * i \<or> dp + 2 * i + 16 \<le> a" using less.prems True by auto
    show ?thesis
      unfolding simd_16_unfold[OF True] less.hyps[OF m p] by (rule mm_storeu_si128_other[OF q])
  qed
qed

lemma simd_16_store_lane:
  assumes "k < 8"
  shows "load_u16 (mm_storeu_si128 dest p (simd_out_16 (mm_loadu_si128 src q) c)) (p + 2 * k) =
     (if byte_swap_16 (load_u16 src (q + 2 * k)) = c then 0xFFFF
      else byte_swap_16 (load_u16 src (q + 2 * k)))"
proof -
  let ?X = "mm_loadu_si128 src q"
  have b: "mm_storeu_si128 dest p v (p + 2 * k) = v ! (2 * k)"
    "mm_storeu_si128 dest p v (p + 2 * k + 1) = v ! (2 * k + 1)" for v
    using assms mm_storeu_si128_at[of "2 * k" dest p v] mm_storeu_si128_at[of "2 * k + 1" dest p v]
    by (simp_all add: add.assoc)
  have x: "?X ! (2 * k) = src (q + 2 * k)" "?X ! (2 * k + 1) = src (q + 2 * k + 1)"
    using assms mm_loadu_si128_nth[of "2 * k" src q] mm_loadu_si128_nth[of "2 * k + 1" src q]
    by (simp_all add: add.assoc)
  show ?thesis
    unfolding load_u16_le16 b
    using simd_out_16_lane[OF assms mm_loadu_si128_bytes, of src q c]
    unfolding x .
qed

lemma simd_16_elem:
  "i \<le> j \<Longrightarrow> j < i + 8 * ((count - i) div 8) \<Longrightarrow>
   load_u16 (fst (copy_cmp_swap_16_simd dest dp src sp shufmask_16 (mm_set1_epi16 c) count i))
     (dp + 2 * j) =
   (if byte_swap_16 (load_u16 src (sp + 2 * j)) = c then 0xFFFF
    else byte_swap_16 (load_u16 src (sp + 2 * j)))"
proof (induction "count - i" arbitrary: dest i rule: less_induct)
  case less
  have True: "i + 8 \<le> count"
  proof (rule ccontr)
    assume "\<not> i + 8 \<le> count"
    then have "(count - i) div 8 = 0" by simp
    then show False using less.prems by simp
  qed
  let ?d = "mm_storeu_si128 dest (dp + 2 * i) (simd_out_16 (mm_loadu_si128 src (sp + 2 * i)) c)"
  let ?r = "copy_cmp_swap_16_simd ?d dp src sp shufmask_16 (mm_set1_epi16 c) count (i + 8)"
  have m: "count - (i + 8) < count - i" using True by simp
  show ?case
  proof (cases "j < i + 8")
    case False
    have "i + 8 \<le> j" using False by simp
    moreover have "j < (i + 8) + 8 * ((count - (i + 8)) div 8)"
      unfolding stride_8[OF True] by (rule less.prems(2))
    ultimately show ?thesis
      unfolding simd_16_unfold[OF True] by (rule less.hyps[OF m])
  next
    case j: True
    define k where "k = j - i"
    have k: "k < 8" using j less.prems by (simp add: k_def)
    have jk: "dp + 2 * j = dp + 2 * i + 2 * k" "sp + 2 * j = sp + 2 * i + 2 * k"
      using less.prems(1) by (simp_all add: k_def)
    have "load_u16 (fst ?r) (dp + 2 * j) = load_u16 ?d (dp + 2 * j)"
      by (rule load_u16_cong; rule simd_16_frame) (use j in simp_all)
    then show ?thesis
      unfolding simd_16_unfold[OF True] jk by (simp only: simd_16_store_lane[OF k])
  qed
qed

text \<open>What \<open>copy_cmp_swap_16_unaligned\<close> writes: the elements below
  \<open>8 * (count div 8)\<close> are swapped and substituted, the residual elements are only
  swapped.  The scalar routine substitutes every element.\<close>

lemma copy_cmp_swap_16_elements:
  assumes "j < count"
  shows "load_u16 (copy_cmp_swap_16_unaligned dest dp src sp c count) (dp + 2 * j) =
     (if j < 8 * (count div 8)
      then (if byte_swap_16 (load_u16 src (sp + 2 * j)) = c then 0xFFFF
            else byte_swap_16 (load_u16 src (sp + 2 * j)))
      else byte_swap_16 (load_u16 src (sp + 2 * j)))"
proof -
  let ?r = "copy_cmp_swap_16_simd dest dp src sp shufmask_16 (mm_set1_epi16 c) count 0"
  have "copy_cmp_swap_16_unaligned dest dp src sp c count =
      loop_u16 byte_swap_16 (fst ?r) dp src sp count (snd ?r)"
    by (simp add: copy_cmp_swap_16_unaligned_def shufmask_16_def[symmetric] Let_def
        case_prod_beta)
  then have u: "copy_cmp_swap_16_unaligned dest dp src sp c count =
      loop_u16 byte_swap_16 (fst ?r) dp src sp count (8 * (count div 8))"
    unfolding simd_16_index by simp
  show ?thesis
  proof (cases "j < 8 * (count div 8)")
    case True
    have "load_u16 (loop_u16 byte_swap_16 (fst ?r) dp src sp count (8 * (count div 8)))
        (dp + 2 * j) = load_u16 (fst ?r) (dp + 2 * j)"
      by (rule load_u16_cong; rule loop_u16_frame) (use True in simp_all)
    moreover have "load_u16 (fst ?r) (dp + 2 * j) =
        (if byte_swap_16 (load_u16 src (sp + 2 * j)) = c then 0xFFFF
         else byte_swap_16 (load_u16 src (sp + 2 * j)))"
      by (rule simd_16_elem) (use True in simp_all)
    ultimately show ?thesis unfolding u if_P[OF True] by (rule trans)
  next
    case False
    have "8 * (count div 8) \<le> j" using False by simp
    then show ?thesis
      unfolding u if_not_P[OF False] using assms by (rule loop_u16_elem)
  qed
qed

lemma copy_and_swap_16_elements:
  assumes "j < count"
  shows "load_u16 (copy_and_swap_16_unaligned dest dp src sp c count) (dp + 2 * j) =
     (if byte_swap_16 (load_u16 src (sp + 2 * j)) = c then 0xFFFF
      else byte_swap_16 (load_u16 src (sp + 2 * j)))"
proof -
  have "load_u16 (copy_and_swap_16_unaligned dest dp src sp c count) (dp + 2 * j) =
      (let v = byte_swap_16 (load_u16 src (sp + 2 * j)) in if v = c then 0xFFFF else v)"
    unfolding copy_and_swap_16_unaligned_def by (rule loop_u16_elem[OF le0 assms])
  then show ?thesis by (simp only: Let_def)
qed

text \<open>The same for the 32-bit routines, four elements to a vector.\<close>

lemma simd_32_unfold:
  "i + 4 \<le> count \<Longrightarrow>
   copy_cmp_swap_32_simd dest dp src sp shufmask_32 (mm_set1_epi32 c) count i =
     copy_cmp_swap_32_simd
       (mm_storeu_si128 dest (dp + 4 * i) (simd_out_32 (mm_loadu_si128 src (sp + 4 * i)) c))
       dp src sp shufmask_32 (mm_set1_epi32 c) count (i + 4)"
  by (subst copy_cmp_swap_32_simd.simps) (simp add: simd_out_32_def shufmask_32_def Let_def)

lemma simd_32_stop:
  "\<not> i + 4 \<le> count \<Longrightarrow>
   copy_cmp_swap_32_simd dest dp src sp shufmask cmpval count i = (dest, i)"
  by (subst copy_cmp_swap_32_simd.simps) simp

lemma stride_4:
  assumes "i + 4 \<le> count"
  shows "(i + 4) + 4 * ((count - (i + 4)) div 4) = i + 4 * ((count - i) div (4::nat))"
proof -
  obtain d where d: "count = i + 4 + d" using assms le_Suc_ex by blast
  have "(4 + d) div 4 = Suc (d div 4)" using div_add_self1[of 4 d] by simp
  then show ?thesis unfolding d by simp
qed

lemma simd_32_index:
  "snd (copy_cmp_swap_32_simd dest dp src sp shufmask_32 (mm_set1_epi32 c) count i) =
     i + 4 * ((count - i) div 4)"
proof (induction "count - i" arbitrary: dest i rule: less_induct)
  case less
  show ?case
  proof (cases "i + 4 \<le> count")
    case False
    then show ?thesis by (simp add: simd_32_stop)
  next
    case True
    have m: "count - (i + 4) < count - i" using True by simp
    show ?thesis
      unfolding simd_32_unfold[OF True] less.hyps[OF m] by (rule stride_4[OF True])
  qed
qed

lemma simd_32_frame:
  "a < dp + 4 * i \<or> dp + 4 * count \<le> a \<Longrightarrow>
   fst (copy_cmp_swap_32_simd dest dp src sp shufmask_32 (mm_set1_epi32 c) count i) a = dest a"
proof (induction "count - i" arbitrary: dest i rule: less_induct)
  case less
  show ?case
  proof (cases "i + 4 \<le> count")
    case False
    then show ?thesis by (simp add: simd_32_stop)
  next
    case True
    have m: "count - (i + 4) < count - i" using True by simp
    have p: "a < dp + 4 * (i + 4) \<or> dp + 4 * count \<le> a" using less.prems by auto
    have q: "a < dp + 4 * i \<or> dp + 4 * i + 16 \<le> a" using less.prems True by auto
    show ?thesis
      unfolding simd_32_unfold[OF True] less.hyps[OF m p] by (rule mm_storeu_si128_other[OF q])
  qed
qed

lemma simd_32_store_lane:
  assumes "k < 4"
  shows "load_u32 (mm_storeu_si128 dest p (simd_out_32 (mm_loadu_si128 src q) c)) (p + 4 * k) =
     (if byte_swap_32 (load_u32 src (q + 4 * k)) = c then 0xFFFFFFFF
      else byte_swap_32 (load_u32 src (q + 4 * k)))"
proof -
  let ?X = "mm_loadu_si128 src q"
  have b: "mm_storeu_si128 dest p v (p + 4 * k) = v ! (4 * k)"
    "mm_storeu_si128 dest p v (p + 4 * k + 1) = v ! (4 * k + 1)"
    "mm_storeu_si128 dest p v (p + 4 * k + 2) = v ! (4 * k + 2)"
    "mm_storeu_si128 dest p v (p + 4 * k + 3) = v ! (4 * k + 3)" for v
    using assms mm_storeu_si128_at[of "4 * k" dest p v] mm_storeu_si128_at[of "4 * k + 1" dest p v]
      mm_storeu_si128_at[of "4 * k + 2" dest p v] mm_storeu_si128_at[of "4 * k + 3" dest p v]
    by (simp_all add: add.assoc)
  have x: "?X ! (4 * k) = src (q + 4 * k)" "?X ! (4 * k + 1) = src (q + 4 * k + 1)"
    "?X ! (4 * k + 2) = src (q + 4 * k + 2)" "?X ! (4 * k + 3) = src (q + 4 * k + 3)"
    using assms mm_loadu_si128_nth[of "4 * k" src q] mm_loadu_si128_nth[of "4 * k + 1" src q]
      mm_loadu_si128_nth[of "4 * k + 2" src q] mm_loadu_si128_nth[of "4 * k + 3" src q]
    by (simp_all add: add.assoc)
  show ?thesis
    unfolding load_u32_le32 b
    using simd_out_32_lane[OF assms mm_loadu_si128_bytes, of src q c]
    unfolding x .
qed

lemma simd_32_elem:
  "i \<le> j \<Longrightarrow> j < i + 4 * ((count - i) div 4) \<Longrightarrow>
   load_u32 (fst (copy_cmp_swap_32_simd dest dp src sp shufmask_32 (mm_set1_epi32 c) count i))
     (dp + 4 * j) =
   (if byte_swap_32 (load_u32 src (sp + 4 * j)) = c then 0xFFFFFFFF
    else byte_swap_32 (load_u32 src (sp + 4 * j)))"
proof (induction "count - i" arbitrary: dest i rule: less_induct)
  case less
  have True: "i + 4 \<le> count"
  proof (rule ccontr)
    assume "\<not> i + 4 \<le> count"
    then have "(count - i) div 4 = 0" by simp
    then show False using less.prems by simp
  qed
  let ?d = "mm_storeu_si128 dest (dp + 4 * i) (simd_out_32 (mm_loadu_si128 src (sp + 4 * i)) c)"
  let ?r = "copy_cmp_swap_32_simd ?d dp src sp shufmask_32 (mm_set1_epi32 c) count (i + 4)"
  have m: "count - (i + 4) < count - i" using True by simp
  show ?case
  proof (cases "j < i + 4")
    case False
    have "i + 4 \<le> j" using False by simp
    moreover have "j < (i + 4) + 4 * ((count - (i + 4)) div 4)"
      unfolding stride_4[OF True] by (rule less.prems(2))
    ultimately show ?thesis
      unfolding simd_32_unfold[OF True] by (rule less.hyps[OF m])
  next
    case j: True
    define k where "k = j - i"
    have k: "k < 4" using j less.prems by (simp add: k_def)
    have jk: "dp + 4 * j = dp + 4 * i + 4 * k" "sp + 4 * j = sp + 4 * i + 4 * k"
      using less.prems(1) by (simp_all add: k_def)
    have "load_u32 (fst ?r) (dp + 4 * j) = load_u32 ?d (dp + 4 * j)"
      by (rule load_u32_cong, rule simd_32_frame) (use j in simp)
    then show ?thesis
      unfolding simd_32_unfold[OF True] jk by (simp only: simd_32_store_lane[OF k])
  qed
qed

lemma copy_cmp_swap_32_elements:
  assumes "j < count"
  shows "load_u32 (copy_cmp_swap_32_unaligned dest dp src sp c count) (dp + 4 * j) =
     (if j < 4 * (count div 4)
      then (if byte_swap_32 (load_u32 src (sp + 4 * j)) = c then 0xFFFFFFFF
            else byte_swap_32 (load_u32 src (sp + 4 * j)))
      else byte_swap_32 (load_u32 src (sp + 4 * j)))"
proof -
  let ?r = "copy_cmp_swap_32_simd dest dp src sp shufmask_32 (mm_set1_epi32 c) count 0"
  have "copy_cmp_swap_32_unaligned dest dp src sp c count =
      loop_u32 byte_swap_32 (fst ?r) dp src sp count (snd ?r)"
    by (simp add: copy_cmp_swap_32_unaligned_def shufmask_32_def[symmetric] Let_def
        case_prod_beta)
  then have u: "copy_cmp_swap_32_unaligned dest dp src sp c count =
      loop_u32 byte_swap_32 (fst ?r) dp src sp count (4 * (count div 4))"
    unfolding simd_32_index by simp
  show ?thesis
  proof (cases "j < 4 * (count div 4)")
    case True
    have "load_u32 (loop_u32 byte_swap_32 (fst ?r) dp src sp count (4 * (count div 4)))
        (dp + 4 * j) = load_u32 (fst ?r) (dp + 4 * j)"
      by (rule load_u32_cong, rule loop_u32_frame) (use True in simp)
    moreover have "load_u32 (fst ?r) (dp + 4 * j) =
        (if byte_swap_32 (load_u32 src (sp + 4 * j)) = c then 0xFFFFFFFF
         else byte_swap_32 (load_u32 src (sp + 4 * j)))"
      by (rule simd_32_elem) (use True in simp_all)
    ultimately show ?thesis unfolding u if_P[OF True] by (rule trans)
  next
    case False
    have "4 * (count div 4) \<le> j" using False by simp
    then show ?thesis
      unfolding u if_not_P[OF False] using assms by (rule loop_u32_elem)
  qed
qed

lemma copy_and_swap_32_elements:
  assumes "j < count"
  shows "load_u32 (copy_and_swap_32_unaligned dest dp src sp c count) (dp + 4 * j) =
     (if byte_swap_32 (load_u32 src (sp + 4 * j)) = c then 0xFFFFFFFF
      else byte_swap_32 (load_u32 src (sp + 4 * j)))"
proof -
  have "load_u32 (copy_and_swap_32_unaligned dest dp src sp c count) (dp + 4 * j) =
      (let v = byte_swap_32 (load_u32 src (sp + 4 * j)) in if v = c then 0xFFFFFFFF else v)"
    unfolding copy_and_swap_32_unaligned_def by (rule loop_u32_elem[OF le0 assms])
  then show ?thesis by (simp only: Let_def)
qed


text \<open>On the elements that the vector loop handles, the vector routine and the scalar
  routine write the same.\<close>

lemma copy_cmp_swap_16_agrees_with_scalar:
  assumes "j < 8 * (count div 8)"
  shows "load_u16 (copy_cmp_swap_16_unaligned dest dp src sp c count) (dp + 2 * j) =
         load_u16 (copy_and_swap_16_unaligned dest' dp' src sp c count) (dp' + 2 * j)"
proof -
  have j: "j < count" using assms by (rule less_le_trans) simp
  show ?thesis
    unfolding copy_cmp_swap_16_elements[OF j] copy_and_swap_16_elements[OF j] if_P[OF assms] ..
qed

lemma copy_cmp_swap_32_agrees_with_scalar:
  assumes "j < 4 * (count div 4)"
  shows "load_u32 (copy_cmp_swap_32_unaligned dest dp src sp c count) (dp + 4 * j) =
         load_u32 (copy_and_swap_32_unaligned dest' dp' src sp c count) (dp' + 4 * j)"
proof -
  have j: "j < count" using assms by (rule less_le_trans) simp
  show ?thesis
    unfolding copy_cmp_swap_32_elements[OF j] copy_and_swap_32_elements[OF j] if_P[OF assms] ..
qed

section \<open>The index copy with substitution\<close>

text \<open>
  Claim C1.  The residual loops of \<open>copy_cmp_swap_16_unaligned\<close> and
  \<open>copy_cmp_swap_32_unaligned\<close> store the swapped element without comparing it with
  \<open>cmp_value\<close>.  With one element, and with nine 16-bit or five 32-bit elements, every
  element swaps to the sentinel; the elements handled by the vector loop become all-ones
  and the residual element stays the sentinel.
\<close>

theorem copy_cmp_swap_residual_not_substituted:
  "byte_swap_16 (load_u16 example_indices 0) = 0x3412 \<and>
   load_u16 (copy_cmp_swap_16_unaligned (\<lambda>a. 0) 0 example_indices 0 0x3412 1) 0 = 0x3412 \<and>
   byte_swap_16 (load_u16 example_indices 16) = 0x3412 \<and>
   load_u16 (copy_cmp_swap_16_unaligned (\<lambda>a. 0) 0 example_indices 0 0x3412 9) 0 = 0xFFFF \<and>
   load_u16 (copy_cmp_swap_16_unaligned (\<lambda>a. 0) 0 example_indices 0 0x3412 9) 16 = 0x3412 \<and>
   byte_swap_32 (load_u32 example_indices 16) = 0x34123412 \<and>
   load_u32 (copy_cmp_swap_32_unaligned (\<lambda>a. 0) 0 example_indices 0 0x34123412 5) 0
     = 0xFFFFFFFF \<and>
   load_u32 (copy_cmp_swap_32_unaligned (\<lambda>a. 0) 0 example_indices 0 0x34123412 5) 16
     = 0x34123412"
  by code_simp

text \<open>
  Claim C5.  On the same input the vector routines and the scalar routines differ in
  the residual elements: the scalar loop substitutes all-ones there, the vector routine
  does not.
\<close>

theorem copy_cmp_swap_differs_from_scalar:
  "load_u32 (copy_cmp_swap_32_unaligned (\<lambda>a. 0) 0 example_indices 0 0x34123412 5) 16
     = 0x34123412 \<and>
   load_u32 (copy_and_swap_32_unaligned (\<lambda>a. 0) 0 example_indices 0 0x34123412 5) 16
     = 0xFFFFFFFF \<and>
   load_u16 (copy_cmp_swap_16_unaligned (\<lambda>a. 0) 0 example_indices 0 0x3412 9) 16 = 0x3412 \<and>
   load_u16 (copy_and_swap_16_unaligned (\<lambda>a. 0) 0 example_indices 0 0x3412 9) 16 = 0xFFFF"
  by code_simp

section \<open>Index buffers\<close>







section \<open>Vertex buffers\<close>


lemma UploadVertexBuffer_hit:
  assumes "FindCachedTransientData (transient_cache s) a l \<noteq> VK_WHOLE_SIZE"
  shows "UploadVertexBuffer rb s cb a l endian fence =
     Inr ((gpu_buffer rb (transient_buffer s), FindCachedTransientData (transient_cache s) a l),
          s, cb)"
  using assms by (simp add: UploadVertexBuffer_def Let_def)

lemma UploadVertexBuffer_exhausted:
  assumes "FindCachedTransientData (transient_cache s) a l = VK_WHOLE_SIZE"
    and "AllocateTransientData rb s (ucast l) fence = (VK_WHOLE_SIZE, s1)"
  shows "UploadVertexBuffer rb s cb a l endian fence = Inr ((0, VK_WHOLE_SIZE), s1, cb)"
  using assms by (simp add: UploadVertexBuffer_def Let_def)

lemma UploadVertexBuffer_assert:
  assumes "FindCachedTransientData (transient_cache s) a l = VK_WHOLE_SIZE"
    and "AllocateTransientData rb s (ucast l) fence = (off, s1)" and "off \<noteq> VK_WHOLE_SIZE"
    and "endian \<noteq> k8in32" "endian \<noteq> k16in32"
  shows "UploadVertexBuffer rb s cb a l endian fence = Inl AssertionFailure"
  using assms by (simp add: UploadVertexBuffer_def Let_def)

lemma UploadVertexBuffer_uploaded:
  assumes "FindCachedTransientData (transient_cache s) a l = VK_WHOLE_SIZE"
    and "AllocateTransientData rb s (ucast l) fence = (off, s1)" and "off \<noteq> VK_WHOLE_SIZE"
    and "endian = k8in32 \<or> endian = k16in32"
  shows "UploadVertexBuffer rb s cb a l endian fence =
     Inr ((gpu_buffer rb (rb_Flush rb (transient_buffer s1) off (ucast l)), off),
          s1\<lparr>host_base := selected_vertex_copy (host_base s1) off (memory s1) a l endian,
             transient_buffer := rb_Flush rb (transient_buffer s1) off (ucast l),
             transient_cache := CacheTransientData (transient_cache s1) a l off\<rparr>,
          vkCmdPipelineBarrier cb VK_PIPELINE_STAGE_HOST_BIT VK_PIPELINE_STAGE_VERTEX_INPUT_BIT
            \<lparr>srcAccessMask = [VK_ACCESS_HOST_WRITE_BIT],
             dstAccessMask = [VK_ACCESS_VERTEX_ATTRIBUTE_READ_BIT],
             barrier_buffer = gpu_buffer rb (rb_Flush rb (transient_buffer s1) off (ucast l)),
             barrier_offset = off, barrier_size = ucast l\<rparr>)"
  using assms by (auto simp: UploadVertexBuffer_def Let_def selected_vertex_copy_def)





text \<open>Every upload of a vertex buffer keeps the cache sorted with increasing ends,
  when the offsets granted by the circular buffer stay below \<open>2^63\<close>.\<close>

lemma AllocateTransientData_granted:
  assumes "AllocateTransientData rb s n f = (x, t)" "x \<noteq> VK_WHOLE_SIZE"
  shows "\<exists>b b'. Acquire rb b n f = (Some x, b')"
  using assms
  by (auto simp: AllocateTransientData_def TryAllocateTransientData_def Let_def
      split: prod.splits option.splits if_splits)

lemma UploadVertexBuffer_cache_invariant:
  assumes "map_sorted (transient_cache s)" "ends_increasing (transient_cache s)"
    and "\<forall>e\<in>set (transient_cache s). entry_end e < 2 ^ 32 \<and> unat (snd (snd e)) < 2 ^ 63"
    and "unat a + unat l < 2 ^ 32"
    and "\<forall>b n f x b'. Acquire rb b n f = (Some x, b') \<longrightarrow> unat x < 2 ^ 63"
    and "UploadVertexBuffer rb s cb a l endian fence = Inr (res, s', cb')"
  shows "map_sorted (transient_cache s') \<and> ends_increasing (transient_cache s') \<and>
         (\<forall>e\<in>set (transient_cache s'). entry_end e < 2 ^ 32 \<and> unat (snd (snd e)) < 2 ^ 63)"
proof (cases "FindCachedTransientData (transient_cache s) a l = VK_WHOLE_SIZE")
  case False
  have "s' = s" using UploadVertexBuffer_hit[OF False, of rb cb endian fence] assms(6) by simp
  then show ?thesis using assms(1,2,3) by simp
next
  case True
  let ?c = "transient_cache s"
  obtain o1 t where A: "AllocateTransientData rb s (ucast l) fence = (o1, t)"
    by (cases "AllocateTransientData rb s (ucast l) fence")
  have ct: "transient_cache t = ?c"
    using AllocateTransientData_cache[of rb s "ucast l" fence] A by simp
  show ?thesis
  proof (cases "o1 = VK_WHOLE_SIZE")
    case w: True
    have "s' = t"
      using UploadVertexBuffer_exhausted[OF True, of rb fence t cb endian] A w assms(6) by simp
    then show ?thesis using assms(1,2,3) ct by simp
  next
    case nw: False
    have e: "endian = k8in32 \<or> endian = k16in32"
      using UploadVertexBuffer_assert[OF True A nw, of endian cb] assms(6) by auto
    have c': "transient_cache s' = CacheTransientData ?c a l o1"
      using UploadVertexBuffer_uploaded[OF True A nw e, of cb] assms(6) ct by auto
    have ne: "\<forall>e\<in>set ?c. entry_end e < 2 ^ 32" using assms(3) by blast
    have miss: "\<forall>e\<in>set ?c. fst e \<le> a \<longrightarrow> entry_end e < unat a + unat l"
      using lookup_miss_ends_below[OF assms(1,2,4,3) True] by blast
    have o: "unat o1 < 2 ^ 63"
      using AllocateTransientData_granted[OF A nw] assms(5) by blast
    have b: "entry_end x < 2 ^ 32 \<and> unat (snd (snd x)) < 2 ^ 63"
      if "x \<in> set (CacheTransientData ?c a l o1)" for x
    proof -
      have "x \<in> set ?c \<or> x = (a, (l, o1))"
        using CacheTransientData_set[OF assms(1,2,4) ne that] by blast
      then show ?thesis
      proof
        assume "x \<in> set ?c" then show ?thesis using assms(3) by blast
      next
        assume "x = (a, (l, o1))" then show ?thesis using assms(4) o by (simp add: entry_end_def)
      qed
    qed
    show ?thesis
      unfolding c'
      using CacheTransientData_sorted[OF assms(1), of a l o1]
        CacheTransientData_ends_increasing[OF assms(1,2,4) ne miss, of o1] b
      by blast
  qed
qed

text \<open>A cached range outlives the bytes it refers to.  The first upload puts 64 bytes
  of guest address \<open>0x1000\<close> at offset 0 and caches the range.  The second upload does
  not fit, \<open>AllocateTransientData\<close> scavenges the circular buffer and is granted
  offset 0 again, and the data of guest address \<open>0x2010\<close> overwrites the first upload.
  The third upload asks for \<open>0x1000\<close> again, hits the cache and returns offset 0, where
  the first word is now \<open>0x10111213\<close> and not the swapped guest word
  \<open>0x00010203\<close>.\<close>

lemma bump_allocation_retry:
  assumes "transient_buffer s = (cursor, log)" "\<not> cursor + unat n \<le> capacity" "unat n \<le> capacity"
  shows "AllocateTransientData (probe (bump_buffer capacity)) s n f =
     (0, s\<lparr>transient_buffer :=
            (unat n, log @ [AcquireCall n f, ScavengeCall, AcquireCall n f])\<rparr>)"
  using assms
  by (simp add: AllocateTransientData_def TryAllocateTransientData_def probe_def bump_buffer_def
      Let_def VK_WHOLE_SIZE_def)

lemma stale_range_after_internal_scavenge:
  "\<exists>s1 cb1 s2 cb2.
     UploadVertexBuffer (probe (bump_buffer 128)) (example_state 0 []) [] 0x1000 64 k8in32 7 =
       Inr ((1, 0), s1, cb1) \<and>
     UploadVertexBuffer (probe (bump_buffer 128)) s1 cb1 0x2010 128 k8in32 8 =
       Inr ((1, 0), s2, cb2) \<and>
     snd (transient_buffer s2) =
       [AcquireCall 64 7, FlushCall 0 64, AcquireCall 128 8, ScavengeCall, AcquireCall 128 8,
        FlushCall 0 128] \<and>
     transient_cache s2 = [(0x1000, (64, 0)), (0x2010, (128, 0))] \<and>
     UploadVertexBuffer (probe (bump_buffer 128)) s2 cb2 0x1000 64 k8in32 8 =
       Inr ((1, 0), s2, cb2) \<and>
     load_u32 (host_base s2) 0 = 0x10111213 \<and>
     byte_swap_32 (load_u32 (memory s2) 0x1000) = 0x00010203"
proof -
  let ?rb = "probe (bump_buffer 128)"
  let ?e = "example_state 0 []"
  let ?m = "(\<lambda>a. of_nat a) :: mem"
  have n: "(0 :: 64 word) \<noteq> VK_WHOLE_SIZE" by (simp add: VK_WHOLE_SIZE_def)
  have g: "gpu_buffer ?rb x = 1" for x by (simp add: probe_simps bump_buffer_def)
  have fl: "rb_Flush ?rb (c, lg) a b = (c, lg @ [FlushCall a b])" for c lg a b
    by (simp add: probe_simps bump_buffer_def)
  \<comment> \<open>first upload: 64 bytes of guest address 0x1000 go to offset 0\<close>
  have f1: "FindCachedTransientData (transient_cache ?e) 0x1000 64 = VK_WHOLE_SIZE"
    by (simp add: example_state_def FindCachedTransientData_def)
  have A1: "AllocateTransientData ?rb ?e (ucast (64 :: 32 word)) 7 =
      (0, ?e\<lparr>transient_buffer := (64, [AcquireCall 64 7])\<rparr>)"
    using example_allocation[of 0 64 128 "[]" 7] by (simp add: VK_WHOLE_SIZE_def)
  note U1 = UploadVertexBuffer_uploaded[OF f1 A1 n, of k8in32 "[]", simplified]
  have "\<exists>s1 cb1. UploadVertexBuffer ?rb ?e [] 0x1000 64 k8in32 7 = Inr ((1, 0), s1, cb1) \<and>
      transient_buffer s1 = (64, [AcquireCall 64 7, FlushCall 0 64]) \<and>
      transient_cache s1 = [(0x1000, (64, 0))] \<and>
      host_base s1 = xe_copy_and_swap_32_unaligned (\<lambda>a. 0) 0 ?m 0x1000 16 \<and> memory s1 = ?m"
    unfolding U1 g
    by (intro exI conjI, rule refl)
       (simp_all add: fl example_state_def selected_vertex_copy_def TranslatePhysical_def
          CacheTransientData_def upper_bound_def erase_contained.simps)
  then obtain s1 cb1 where
    u1: "UploadVertexBuffer ?rb ?e [] 0x1000 64 k8in32 7 = Inr ((1, 0), s1, cb1)"
    and b1: "transient_buffer s1 = (64, [AcquireCall 64 7, FlushCall 0 64])"
    and c1: "transient_cache s1 = [(0x1000, (64, 0))]"
    and h1: "host_base s1 = xe_copy_and_swap_32_unaligned (\<lambda>a. 0) 0 ?m 0x1000 16"
    and m1: "memory s1 = ?m"
    by (elim exE conjE)
  \<comment> \<open>second upload: 128 bytes do not fit, the circular buffer is scavenged, offset 0 again\<close>
  have f2: "FindCachedTransientData (transient_cache s1) 0x2010 128 = VK_WHOLE_SIZE"
    unfolding c1 by (simp add: FindCachedTransientData_def upper_bound_def)
  have A2: "AllocateTransientData ?rb s1 (ucast (128 :: 32 word)) 8 =
      (0, s1\<lparr>transient_buffer := (128, [AcquireCall 64 7, FlushCall 0 64, AcquireCall 128 8,
             ScavengeCall, AcquireCall 128 8])\<rparr>)"
    using bump_allocation_retry[OF b1, of 128 128 8] by simp
  note U2 = UploadVertexBuffer_uploaded[OF f2 A2 n, of k8in32 cb1, simplified]
  have "\<exists>s2 cb2. UploadVertexBuffer ?rb s1 cb1 0x2010 128 k8in32 8 = Inr ((1, 0), s2, cb2) \<and>
      snd (transient_buffer s2) =
        [AcquireCall 64 7, FlushCall 0 64, AcquireCall 128 8, ScavengeCall, AcquireCall 128 8,
         FlushCall 0 128] \<and>
      transient_cache s2 = [(0x1000, (64, 0)), (0x2010, (128, 0))] \<and>
      host_base s2 = xe_copy_and_swap_32_unaligned
         (xe_copy_and_swap_32_unaligned (\<lambda>a. 0) 0 ?m 0x1000 16) 0 ?m 0x2010 32 \<and>
      memory s2 = ?m"
    unfolding U2 g
    by (intro exI conjI, rule refl)
       (simp_all add: fl c1 h1 m1 selected_vertex_copy_def TranslatePhysical_def
          CacheTransientData_def upper_bound_def erase_contained.simps)
  then obtain s2 cb2 where
    u2: "UploadVertexBuffer ?rb s1 cb1 0x2010 128 k8in32 8 = Inr ((1, 0), s2, cb2)"
    and b2: "snd (transient_buffer s2) =
        [AcquireCall 64 7, FlushCall 0 64, AcquireCall 128 8, ScavengeCall, AcquireCall 128 8,
         FlushCall 0 128]"
    and c2: "transient_cache s2 = [(0x1000, (64, 0)), (0x2010, (128, 0))]"
    and h2: "host_base s2 = xe_copy_and_swap_32_unaligned
         (xe_copy_and_swap_32_unaligned (\<lambda>a. 0) 0 ?m 0x1000 16) 0 ?m 0x2010 32"
    and m2: "memory s2 = ?m"
    by (elim exE conjE)
  \<comment> \<open>third upload: the range of the first one is still cached at offset 0\<close>
  have f3: "FindCachedTransientData (transient_cache s2) 0x1000 64 = 0"
    unfolding c2 by (simp add: FindCachedTransientData_def upper_bound_def)
  have u3: "UploadVertexBuffer ?rb s2 cb2 0x1000 64 k8in32 8 = Inr ((1, 0), s2, cb2)"
    using UploadVertexBuffer_hit[of s2 "0x1000" 64 ?rb cb2 k8in32 8] n unfolding f3 g by simp
  have d: "load_u32 (xe_copy_and_swap_32_unaligned
         (xe_copy_and_swap_32_unaligned (\<lambda>a. 0) 0 ?m 0x1000 16) 0 ?m 0x2010 32) 0 = 0x10111213"
    unfolding xe_copy_and_swap_32_unaligned_def
    using loop_u32_elem[of 0 0 32 byte_swap_32 _ 0 ?m "0x2010"]
    by (simp add: load_u32_def byte_swap_32_def)
  have d': "byte_swap_32 (load_u32 ?m 0x1000) = 0x00010203"
    by (simp add: load_u32_def byte_swap_32_def)
  show ?thesis
    by (intro exI[of _ s1] exI[of _ cb1] exI[of _ s2] exI[of _ cb2] conjI u1 u2 b2 c2 u3)
       (simp_all only: h2 m2 d d')
qed

lemma bump_allocation_fits:
  assumes "transient_buffer s = (cursor, log)" "cursor + unat n \<le> capacity"
    "of_nat cursor \<noteq> VK_WHOLE_SIZE"
  shows "AllocateTransientData (probe (bump_buffer capacity)) s n f =
     (of_nat cursor, s\<lparr>transient_buffer := (cursor + unat n, log @ [AcquireCall n f])\<rparr>)"
  using assms
  by (simp add: AllocateTransientData_def TryAllocateTransientData_def probe_def bump_buffer_def
      Let_def)

text \<open>
  The wrapped sums are met through \<open>UploadVertexBuffer\<close>.  After the upload of the 0x80
  bytes at guest address \<open>0xFFFFFF00\<close> to offset 0, the upload of the 0x20 bytes at
  \<open>0xFFFFFFF0\<close> is answered from the cache with offset \<open>0xF0\<close>, behind the 0x80 bytes
  that were acquired and written, and nothing is uploaded.
\<close>

lemma wrapped_range_hit_after_upload:
  "\<exists>s1 cb1.
     UploadVertexBuffer (probe (bump_buffer 256)) (example_state 0 []) [] 0xFFFFFF00 0x80
       k8in32 7 = Inr ((1, 0), s1, cb1) \<and>
     transient_buffer s1 = (128, [AcquireCall 0x80 7, FlushCall 0 0x80]) \<and>
     transient_cache s1 = [(0xFFFFFF00, (0x80, 0))] \<and>
     UploadVertexBuffer (probe (bump_buffer 256)) s1 cb1 0xFFFFFFF0 0x20 k8in32 8 =
       Inr ((1, 0xF0), s1, cb1)"
proof -
  let ?rb = "probe (bump_buffer 256)"
  let ?e = "example_state 0 []"
  have n: "(0 :: 64 word) \<noteq> VK_WHOLE_SIZE" by (simp add: VK_WHOLE_SIZE_def)
  have g: "gpu_buffer ?rb x = 1" for x by (simp add: probe_simps bump_buffer_def)
  have fl: "rb_Flush ?rb (c, lg) a b = (c, lg @ [FlushCall a b])" for c lg a b
    by (simp add: probe_simps bump_buffer_def)
  have f1: "FindCachedTransientData (transient_cache ?e) 0xFFFFFF00 0x80 = VK_WHOLE_SIZE"
    by (simp add: example_state_def FindCachedTransientData_def)
  have A1: "AllocateTransientData ?rb ?e (ucast (0x80 :: 32 word)) 7 =
      (0, ?e\<lparr>transient_buffer := (128, [AcquireCall 0x80 7])\<rparr>)"
    using example_allocation[of 0 128 256 "[]" 7] by (simp add: VK_WHOLE_SIZE_def)
  note U1 = UploadVertexBuffer_uploaded[OF f1 A1 n, of k8in32 "[]", simplified]
  have "\<exists>s1 cb1. UploadVertexBuffer ?rb ?e [] 0xFFFFFF00 0x80 k8in32 7 = Inr ((1, 0), s1, cb1) \<and>
      transient_buffer s1 = (128, [AcquireCall 0x80 7, FlushCall 0 0x80]) \<and>
      transient_cache s1 = [(0xFFFFFF00, (0x80, 0))]"
    unfolding U1 g
    by (intro exI conjI, rule refl)
       (simp_all add: fl example_state_def CacheTransientData_def upper_bound_def
          erase_contained.simps)
  then obtain s1 cb1 where
    u1: "UploadVertexBuffer ?rb ?e [] 0xFFFFFF00 0x80 k8in32 7 = Inr ((1, 0), s1, cb1)"
    and b1: "transient_buffer s1 = (128, [AcquireCall 0x80 7, FlushCall 0 0x80])"
    and c1: "transient_cache s1 = [(0xFFFFFF00, (0x80, 0))]"
    by (elim exE conjE)
  have f2: "FindCachedTransientData (transient_cache s1) 0xFFFFFFF0 0x20 = 0xF0"
    unfolding c1 by (simp add: FindCachedTransientData_def upper_bound_def)
  have n2: "(0xF0 :: 64 word) \<noteq> VK_WHOLE_SIZE" by (simp add: VK_WHOLE_SIZE_def)
  have u2: "UploadVertexBuffer ?rb s1 cb1 0xFFFFFFF0 0x20 k8in32 8 = Inr ((1, 0xF0), s1, cb1)"
    using UploadVertexBuffer_hit[of s1 "0xFFFFFFF0" "0x20" ?rb cb1 k8in32 8] n2
    unfolding f2 g by simp
  show ?thesis
    by (intro exI[of _ s1] exI[of _ cb1] conjI u1 b1 c1 u2)
qed

text \<open>
  In the same way the upload of the 4 bytes at \<open>0xFFFFFFF8\<close> followed by the upload of
  the 0x10 bytes at \<open>0xFFFFFFF0\<close> leaves both ranges in the cache, although the second
  contains the first.
\<close>

lemma contained_range_kept_after_upload:
  "\<exists>s1 cb1 s2 cb2.
     UploadVertexBuffer (probe (bump_buffer 128)) (example_state 0 []) [] 0xFFFFFFF8 4
       k8in32 7 = Inr ((1, 0), s1, cb1) \<and>
     transient_cache s1 = [(0xFFFFFFF8, (4, 0))] \<and>
     UploadVertexBuffer (probe (bump_buffer 128)) s1 cb1 0xFFFFFFF0 0x10 k8in32 8 =
       Inr ((1, 4), s2, cb2) \<and>
     transient_cache s2 = [(0xFFFFFFF0, (0x10, 4)), (0xFFFFFFF8, (4, 0))] \<and>
     entry_end (0xFFFFFFF8, (4, 0)) \<le> unat (0xFFFFFFF0 :: 32 word) + unat (0x10 :: 32 word)"
proof -
  let ?rb = "probe (bump_buffer 128)"
  let ?e = "example_state 0 []"
  have n: "(0 :: 64 word) \<noteq> VK_WHOLE_SIZE" by (simp add: VK_WHOLE_SIZE_def)
  have n4: "(4 :: 64 word) \<noteq> VK_WHOLE_SIZE" by (simp add: VK_WHOLE_SIZE_def)
  have g: "gpu_buffer ?rb x = 1" for x by (simp add: probe_simps bump_buffer_def)
  have fl: "rb_Flush ?rb (c, lg) a b = (c, lg @ [FlushCall a b])" for c lg a b
    by (simp add: probe_simps bump_buffer_def)
  have f1: "FindCachedTransientData (transient_cache ?e) 0xFFFFFFF8 4 = VK_WHOLE_SIZE"
    by (simp add: example_state_def FindCachedTransientData_def)
  have A1: "AllocateTransientData ?rb ?e (ucast (4 :: 32 word)) 7 =
      (0, ?e\<lparr>transient_buffer := (4, [AcquireCall 4 7])\<rparr>)"
    using example_allocation[of 0 4 128 "[]" 7] by (simp add: VK_WHOLE_SIZE_def)
  note U1 = UploadVertexBuffer_uploaded[OF f1 A1 n, of k8in32 "[]", simplified]
  have "\<exists>s1 cb1. UploadVertexBuffer ?rb ?e [] 0xFFFFFFF8 4 k8in32 7 = Inr ((1, 0), s1, cb1) \<and>
      transient_buffer s1 = (4, [AcquireCall 4 7, FlushCall 0 4]) \<and>
      transient_cache s1 = [(0xFFFFFFF8, (4, 0))]"
    unfolding U1 g
    by (intro exI conjI, rule refl)
       (simp_all add: fl example_state_def CacheTransientData_def upper_bound_def
          erase_contained.simps)
  then obtain s1 cb1 where
    u1: "UploadVertexBuffer ?rb ?e [] 0xFFFFFFF8 4 k8in32 7 = Inr ((1, 0), s1, cb1)"
    and b1: "transient_buffer s1 = (4, [AcquireCall 4 7, FlushCall 0 4])"
    and c1: "transient_cache s1 = [(0xFFFFFFF8, (4, 0))]"
    by (elim exE conjE)
  have f2: "FindCachedTransientData (transient_cache s1) 0xFFFFFFF0 0x10 = VK_WHOLE_SIZE"
    unfolding c1 by (simp add: FindCachedTransientData_def upper_bound_def)
  have A2: "AllocateTransientData ?rb s1 (ucast (0x10 :: 32 word)) 8 =
      (4, s1\<lparr>transient_buffer := (20, [AcquireCall 4 7, FlushCall 0 4, AcquireCall 0x10 8])\<rparr>)"
    using bump_allocation_fits[OF b1, of 16 128 8] by (simp add: VK_WHOLE_SIZE_def)
  note U2 = UploadVertexBuffer_uploaded[OF f2 A2 n4, of k8in32 cb1, simplified]
  have "\<exists>s2 cb2. UploadVertexBuffer ?rb s1 cb1 0xFFFFFFF0 0x10 k8in32 8 = Inr ((1, 4), s2, cb2) \<and>
      transient_cache s2 = [(0xFFFFFFF0, (0x10, 4)), (0xFFFFFFF8, (4, 0))]"
    unfolding U2 g
    by (intro exI conjI, rule refl)
       (simp_all add: c1 CacheTransientData_def upper_bound_def erase_contained.simps)
  then obtain s2 cb2 where
    u2: "UploadVertexBuffer ?rb s1 cb1 0xFFFFFFF0 0x10 k8in32 8 = Inr ((1, 4), s2, cb2)"
    and c2: "transient_cache s2 = [(0xFFFFFFF0, (0x10, 4)), (0xFFFFFFF8, (4, 0))]"
    by (elim exE conjE)
  have e: "entry_end (0xFFFFFFF8, (4, 0)) \<le> unat (0xFFFFFFF0 :: 32 word) + unat (0x10 :: 32 word)"
    by (simp add: entry_end_def)
  show ?thesis
    by (intro exI[of _ s1] exI[of _ cb1] exI[of _ s2] exI[of _ cb2] conjI u1 c1 u2 c2 e)
qed

section \<open>Constant registers\<close>

lemma values_bytes_at:
  "k < 4 \<Longrightarrow> values_bytes values (4 * r + k) = ucast (drop_bit (8 * k) (values r))"
  by (simp add: values_bytes_def)

lemma load_u32_values_bytes: "load_u32 (values_bytes values) (4 * r) = values r"
  using values_bytes_at[of 0 "values" r] values_bytes_at[of 1 "values" r]
    values_bytes_at[of 2 "values" r] values_bytes_at[of 3 "values" r]
    le32_roundtrip[of "values r"]
  by (simp add: load_u32_def)

lemma memcpy_inside: "dp \<le> a \<Longrightarrow> a < dp + n \<Longrightarrow> memcpy dest dp src sp n a = src (sp + (a - dp))"
  by (simp add: memcpy_def)

lemma memcpy_outside: "a < dp \<or> dp + n \<le> a \<Longrightarrow> memcpy dest dp src sp n a = dest a"
  by (auto simp: memcpy_def)

lemma UploadConstantRegisters_exhausted:
  assumes "AllocateTransientData rb s kConstantRegisterUniformRange fence = (VK_WHOLE_SIZE, s1)"
  shows "UploadConstantRegisters rb regs s cb fence = ((VK_WHOLE_SIZE, VK_WHOLE_SIZE), s1, cb)"
  using assms by (simp add: UploadConstantRegisters_def)

lemma UploadConstantRegisters_uploaded:
  assumes "AllocateTransientData rb s kConstantRegisterUniformRange fence = (off, s1)"
    and "off \<noteq> VK_WHOLE_SIZE"
  shows "fst (UploadConstantRegisters rb regs s cb fence) = (off, off)"
    and "host_base (fst (snd (UploadConstantRegisters rb regs s cb fence))) =
          memcpy (memcpy (memcpy (host_base s1) (unat off) (values_bytes (register_file s1))
              (4 * XE_GPU_REG_SHADER_CONSTANT_000_X regs) 8192)
            (unat off + 8192) (values_bytes (register_file s1))
              (4 * XE_GPU_REG_SHADER_CONSTANT_BOOL_000_031 regs) 32)
            (unat off + 8224) (values_bytes (register_file s1))
              (4 * XE_GPU_REG_SHADER_CONSTANT_LOOP_00 regs) 128"
    and "transient_buffer (fst (snd (UploadConstantRegisters rb regs s cb fence))) =
          rb_Flush rb (transient_buffer s1) off kConstantRegisterUniformRange"
  using assms by (simp_all add: UploadConstantRegisters_def Let_def add.commute)

text \<open>The calls made on the circular buffer by \<open>UploadConstantRegisters\<close>, and the
  bytes of the region in terms of the offset that the function returns.\<close>

lemma UploadConstantRegisters_region:
  fixes s :: "('rb \<times> rb_call list) BufferCache"
  shows
  "let res = UploadConstantRegisters (probe rb) regs s cb fence;
       off = fst (fst res); s' = fst (snd res); base = unat off;
       log = snd (transient_buffer s); log' = snd (transient_buffer s')
   in kConstantRegisterUniformRange = 8352 \<and>
      (off = VK_WHOLE_SIZE \<longrightarrow>
         log' = log @ [AcquireCall 8352 fence, ScavengeCall, AcquireCall 8352 fence]) \<and>
      (off \<noteq> VK_WHOLE_SIZE \<longrightarrow>
         (log' = log @ [AcquireCall 8352 fence, FlushCall off 8352] \<or>
          log' = log @ [AcquireCall 8352 fence, ScavengeCall, AcquireCall 8352 fence,
                        FlushCall off 8352]) \<and>
         (\<forall>k<8192. host_base s' (base + k) =
            values_bytes (register_file s) (4 * XE_GPU_REG_SHADER_CONSTANT_000_X regs + k)) \<and>
         (\<forall>k<32. host_base s' (base + 8192 + k) =
            values_bytes (register_file s) (4 * XE_GPU_REG_SHADER_CONSTANT_BOOL_000_031 regs + k)) \<and>
         (\<forall>k<128. host_base s' (base + 8224 + k) =
            values_bytes (register_file s) (4 * XE_GPU_REG_SHADER_CONSTANT_LOOP_00 regs + k)) \<and>
         (\<forall>a. a < base \<or> base + 8352 \<le> a \<longrightarrow> host_base s' a = host_base s a) \<and>
         (\<forall>j<2048. load_u32 (host_base s') (base + 4 * j) =
            register_file s (XE_GPU_REG_SHADER_CONSTANT_000_X regs + j)) \<and>
         (\<forall>j<8. load_u32 (host_base s') (base + 8192 + 4 * j) =
            register_file s (XE_GPU_REG_SHADER_CONSTANT_BOOL_000_031 regs + j)) \<and>
         (\<forall>j<32. load_u32 (host_base s') (base + 8224 + 4 * j) =
            register_file s (XE_GPU_REG_SHADER_CONSTANT_LOOP_00 regs + j)))"
proof -
  let ?A = "AllocateTransientData (probe rb) s kConstantRegisterUniformRange fence"
  have K: "kConstantRegisterUniformRange = 8352" by (simp add: kConstantRegisterUniformRange_def)
  obtain off s1 where A: "?A = (off, s1)" by (cases ?A)
  have f1: "host_base s1 = host_base s" "register_file s1 = register_file s"
    using AllocateTransientData_frame[of "probe rb" s kConstantRegisterUniformRange fence] A
    by simp_all
  have l1: "snd (transient_buffer s1) = snd (transient_buffer s) @ [AcquireCall 8352 fence] \<or>
      snd (transient_buffer s1) =
        snd (transient_buffer s) @ [AcquireCall 8352 fence, ScavengeCall, AcquireCall 8352 fence]"
    using AllocateTransientData_probe_calls[of rb s kConstantRegisterUniformRange fence] A K
    by simp
  show ?thesis
  proof (cases "off = VK_WHOLE_SIZE")
    case True
    have l2: "snd (transient_buffer s1) =
        snd (transient_buffer s) @ [AcquireCall 8352 fence, ScavengeCall, AcquireCall 8352 fence]"
      using AllocateTransientData_probe_exhausted[of rb s kConstantRegisterUniformRange fence]
        A True K by simp
    show ?thesis
      unfolding Let_def
      using UploadConstantRegisters_exhausted[of "probe rb" s fence s1 regs cb] A True K l2
      by simp
  next
    case False
    note u = UploadConstantRegisters_uploaded[OF A False, of regs cb]
    let ?s' = "fst (snd (UploadConstantRegisters (probe rb) regs s cb fence))"
    let ?v = "values_bytes (register_file s)"
    let ?b = "unat off"
    have hb: "host_base ?s' =
        memcpy (memcpy (memcpy (host_base s) ?b ?v (4 * XE_GPU_REG_SHADER_CONSTANT_000_X regs) 8192)
            (?b + 8192) ?v (4 * XE_GPU_REG_SHADER_CONSTANT_BOOL_000_031 regs) 32)
          (?b + 8224) ?v (4 * XE_GPU_REG_SHADER_CONSTANT_LOOP_00 regs) 128"
      using u(2) f1 by simp
    have b1: "host_base ?s' (?b + k) = ?v (4 * XE_GPU_REG_SHADER_CONSTANT_000_X regs + k)"
      if "k < 8192" for k using that unfolding hb by (simp add: memcpy_def)
    have b2: "host_base ?s' (?b + 8192 + k) =
        ?v (4 * XE_GPU_REG_SHADER_CONSTANT_BOOL_000_031 regs + k)"
      if "k < 32" for k using that unfolding hb by (simp add: memcpy_def)
    have b3: "host_base ?s' (?b + 8224 + k) =
        ?v (4 * XE_GPU_REG_SHADER_CONSTANT_LOOP_00 regs + k)"
      if "k < 128" for k using that unfolding hb by (simp add: memcpy_def)
    have b4: "host_base ?s' a = host_base s a" if "a < ?b \<or> ?b + 8352 \<le> a" for a
      using that unfolding hb by (auto simp: memcpy_def)
    have w1: "load_u32 (host_base ?s') (?b + 4 * j) =
        register_file s (XE_GPU_REG_SHADER_CONSTANT_000_X regs + j)" if "j < 2048" for j
    proof -
      have "load_u32 (host_base ?s') (?b + 4 * j) =
          load_u32 ?v (4 * (XE_GPU_REG_SHADER_CONSTANT_000_X regs + j))"
      proof (rule load_u32_cong)
        fix k :: nat assume "k < 4"
        then show "host_base ?s' (?b + 4 * j + k) =
            ?v (4 * (XE_GPU_REG_SHADER_CONSTANT_000_X regs + j) + k)"
          using b1[of "4 * j + k"] that by (simp add: algebra_simps)
      qed
      then show ?thesis by (simp only: load_u32_values_bytes)
    qed
    have w2: "load_u32 (host_base ?s') (?b + 8192 + 4 * j) =
        register_file s (XE_GPU_REG_SHADER_CONSTANT_BOOL_000_031 regs + j)" if "j < 8" for j
    proof -
      have "load_u32 (host_base ?s') (?b + 8192 + 4 * j) =
          load_u32 ?v (4 * (XE_GPU_REG_SHADER_CONSTANT_BOOL_000_031 regs + j))"
      proof (rule load_u32_cong)
        fix k :: nat assume "k < 4"
        then show "host_base ?s' (?b + 8192 + 4 * j + k) =
            ?v (4 * (XE_GPU_REG_SHADER_CONSTANT_BOOL_000_031 regs + j) + k)"
          using b2[of "4 * j + k"] that by (simp add: algebra_simps)
      qed
      then show ?thesis by (simp only: load_u32_values_bytes)
    qed
    have w3: "load_u32 (host_base ?s') (?b + 8224 + 4 * j) =
        register_file s (XE_GPU_REG_SHADER_CONSTANT_LOOP_00 regs + j)" if "j < 32" for j
    proof -
      have "load_u32 (host_base ?s') (?b + 8224 + 4 * j) =
          load_u32 ?v (4 * (XE_GPU_REG_SHADER_CONSTANT_LOOP_00 regs + j))"
      proof (rule load_u32_cong)
        fix k :: nat assume "k < 4"
        then show "host_base ?s' (?b + 8224 + 4 * j + k) =
            ?v (4 * (XE_GPU_REG_SHADER_CONSTANT_LOOP_00 regs + j) + k)"
          using b3[of "4 * j + k"] that by (simp add: algebra_simps)
      qed
      then show ?thesis by (simp only: load_u32_values_bytes)
    qed
    have lg: "snd (transient_buffer ?s') = snd (transient_buffer s1) @ [FlushCall off 8352]"
      using u(3) K by (simp add: probe_simps)
    have o: "fst (fst (UploadConstantRegisters (probe rb) regs s cb fence)) = off"
      using u(1) by simp
    show ?thesis
      unfolding Let_def o
      using False K l1 lg b1 b2 b3 b4 w1 w2 w3 by auto
  qed
qed

lemma AllocateTransientData_probe_granted:
  "fst (AllocateTransientData (probe rb) s n f) =
     (let r1 = Acquire rb (fst (transient_buffer s)) n f;
          a1 = (case fst r1 of Some x \<Rightarrow> x | None \<Rightarrow> VK_WHOLE_SIZE);
          r2 = Acquire rb (rb_Scavenge rb (snd r1)) n f;
          a2 = (case fst r2 of Some x \<Rightarrow> x | None \<Rightarrow> VK_WHOLE_SIZE)
      in if a1 \<noteq> VK_WHOLE_SIZE then a1 else a2)"
  by (cases "transient_buffer s")
     (auto simp: AllocateTransientData_def TryAllocateTransientData_def probe_def Let_def
      split: prod.splits option.splits)

lemma UploadConstantRegisters_result:
  "fst (UploadConstantRegisters rb regs s cb fence) =
     (fst (AllocateTransientData rb s kConstantRegisterUniformRange fence),
      fst (AllocateTransientData rb s kConstantRegisterUniformRange fence)) \<and>
   (fst (AllocateTransientData rb s kConstantRegisterUniformRange fence) = VK_WHOLE_SIZE \<longrightarrow>
      host_base (fst (snd (UploadConstantRegisters rb regs s cb fence))) = host_base s)"
proof -
  obtain off s1 where A: "AllocateTransientData rb s kConstantRegisterUniformRange fence = (off, s1)"
    by (cases "AllocateTransientData rb s kConstantRegisterUniformRange fence")
  have f1: "host_base s1 = host_base s"
    using AllocateTransientData_frame[of rb s kConstantRegisterUniformRange fence] A by simp
  show ?thesis
  proof (cases "off = VK_WHOLE_SIZE")
    case True
    then show ?thesis
      using UploadConstantRegisters_exhausted[of rb s fence s1 regs cb] A f1 by simp
  next
    case False
    then show ?thesis
      using UploadConstantRegisters_uploaded(1)[OF A False, of regs cb] A by simp
  qed
qed

text \<open>
  Claim C9.  \<open>UploadConstantRegisters\<close> asks for exactly
  \<open>512 * 4 * 4 + 8 * 4 + 32 * 4 = 8352\<close> bytes in every \<open>Acquire\<close> it makes, and it
  returns the offset that the circular buffer granted: the offset of the first
  \<open>Acquire\<close>, or of the second one when the first yields \<open>VK_WHOLE_SIZE\<close>.  When no
  offset is granted nothing is written.  When an offset is granted, the 8192 bytes of
  the float constants, the 32 bytes of the boolean constants and the 128 bytes of the
  loop constants, as they lie in the register file, are at the granted offset, one block
  after the other; the bytes outside the region are unchanged; and each 32-bit word read
  back from the region is the register's value.
\<close>

theorem UploadConstantRegisters_layout:
  fixes s :: "('rb \<times> rb_call list) BufferCache"
  shows
  "let r1 = Acquire rb (fst (transient_buffer s)) 8352 fence;
       a1 = (case fst r1 of Some x \<Rightarrow> x | None \<Rightarrow> VK_WHOLE_SIZE);
       r2 = Acquire rb (rb_Scavenge rb (snd r1)) 8352 fence;
       a2 = (case fst r2 of Some x \<Rightarrow> x | None \<Rightarrow> VK_WHOLE_SIZE);
       granted = (if a1 \<noteq> VK_WHOLE_SIZE then a1 else a2);
       res = UploadConstantRegisters (probe rb) regs s cb fence;
       off = fst (fst res); s' = fst (snd res); base = unat off;
       log = snd (transient_buffer s); log' = snd (transient_buffer s')
   in kConstantRegisterUniformRange = 8352 \<and>
      fst res = (granted, granted) \<and>
      (off = VK_WHOLE_SIZE \<longrightarrow>
         log' = log @ [AcquireCall 8352 fence, ScavengeCall, AcquireCall 8352 fence] \<and>
         host_base s' = host_base s) \<and>
      (off \<noteq> VK_WHOLE_SIZE \<longrightarrow>
         (log' = log @ [AcquireCall 8352 fence, FlushCall off 8352] \<or>
          log' = log @ [AcquireCall 8352 fence, ScavengeCall, AcquireCall 8352 fence,
                        FlushCall off 8352]) \<and>
         (\<forall>k<8192. host_base s' (base + k) =
            values_bytes (register_file s) (4 * XE_GPU_REG_SHADER_CONSTANT_000_X regs + k)) \<and>
         (\<forall>k<32. host_base s' (base + 8192 + k) =
            values_bytes (register_file s) (4 * XE_GPU_REG_SHADER_CONSTANT_BOOL_000_031 regs + k)) \<and>
         (\<forall>k<128. host_base s' (base + 8224 + k) =
            values_bytes (register_file s) (4 * XE_GPU_REG_SHADER_CONSTANT_LOOP_00 regs + k)) \<and>
         (\<forall>a. a < base \<or> base + 8352 \<le> a \<longrightarrow> host_base s' a = host_base s a) \<and>
         (\<forall>j<2048. load_u32 (host_base s') (base + 4 * j) =
            register_file s (XE_GPU_REG_SHADER_CONSTANT_000_X regs + j)) \<and>
         (\<forall>j<8. load_u32 (host_base s') (base + 8192 + 4 * j) =
            register_file s (XE_GPU_REG_SHADER_CONSTANT_BOOL_000_031 regs + j)) \<and>
         (\<forall>j<32. load_u32 (host_base s') (base + 8224 + 4 * j) =
            register_file s (XE_GPU_REG_SHADER_CONSTANT_LOOP_00 regs + j)))"
proof -
  let ?res = "UploadConstantRegisters (probe rb) regs s cb fence"
  have K: "kConstantRegisterUniformRange = 8352" by (simp add: kConstantRegisterUniformRange_def)
  note R = UploadConstantRegisters_result[of "probe rb" regs s cb fence, unfolded K]
  note G = AllocateTransientData_probe_granted[of rb s 8352 fence, unfolded Let_def]
  have g: "fst ?res =
      ((if (case fst (Acquire rb (fst (transient_buffer s)) 8352 fence) of
              Some x \<Rightarrow> x | None \<Rightarrow> VK_WHOLE_SIZE) \<noteq> VK_WHOLE_SIZE
        then (case fst (Acquire rb (fst (transient_buffer s)) 8352 fence) of
              Some x \<Rightarrow> x | None \<Rightarrow> VK_WHOLE_SIZE)
        else (case fst (Acquire rb (rb_Scavenge rb
                (snd (Acquire rb (fst (transient_buffer s)) 8352 fence))) 8352 fence) of
              Some x \<Rightarrow> x | None \<Rightarrow> VK_WHOLE_SIZE)),
       (if (case fst (Acquire rb (fst (transient_buffer s)) 8352 fence) of
              Some x \<Rightarrow> x | None \<Rightarrow> VK_WHOLE_SIZE) \<noteq> VK_WHOLE_SIZE
        then (case fst (Acquire rb (fst (transient_buffer s)) 8352 fence) of
              Some x \<Rightarrow> x | None \<Rightarrow> VK_WHOLE_SIZE)
        else (case fst (Acquire rb (rb_Scavenge rb
                (snd (Acquire rb (fst (transient_buffer s)) 8352 fence))) 8352 fence) of
              Some x \<Rightarrow> x | None \<Rightarrow> VK_WHOLE_SIZE)))"
    by (simp only: R[THEN conjunct1] G)
  have o: "fst (fst ?res) = fst (AllocateTransientData (probe rb) s 8352 fence)"
    by (simp only: R[THEN conjunct1] fst_conv)
  have h: "fst (fst ?res) = VK_WHOLE_SIZE \<longrightarrow> host_base (fst (snd ?res)) = host_base s"
    unfolding o by (rule R[THEN conjunct2])
  note region = UploadConstantRegisters_region[of rb regs s cb fence, unfolded Let_def]
  show ?thesis
    unfolding Let_def
    by (intro conjI impI K g region[THEN conjunct2, THEN conjunct1, THEN mp] h[THEN mp]
        region[THEN conjunct2, THEN conjunct2, THEN mp])
qed

theorem UploadConstantRegisters_layout_witness:
  "fst (UploadConstantRegisters (probe (bump_buffer 16384)) example_registers
       (example_state 100 []) [] 7) = (100, 100) \<and>
   snd (transient_buffer (fst (snd (UploadConstantRegisters (probe (bump_buffer 16384))
       example_registers (example_state 100 []) [] 7)))) =
     [AcquireCall 8352 7, FlushCall 100 8352] \<and>
   load_u32 (host_base (fst (snd (UploadConstantRegisters (probe (bump_buffer 16384))
       example_registers (example_state 100 []) [] 7)))) 0 = 0 \<and>
   load_u32 (host_base (fst (snd (UploadConstantRegisters (probe (bump_buffer 16384))
       example_registers (example_state 100 []) [] 7)))) 100 = 0x4000 \<and>
   load_u32 (host_base (fst (snd (UploadConstantRegisters (probe (bump_buffer 16384))
       example_registers (example_state 100 []) [] 7)))) 120 = 0x4005 \<and>
   load_u32 (host_base (fst (snd (UploadConstantRegisters (probe (bump_buffer 16384))
       example_registers (example_state 100 []) [] 7)))) 8296 = 0x4901 \<and>
   load_u32 (host_base (fst (snd (UploadConstantRegisters (probe (bump_buffer 16384))
       example_registers (example_state 100 []) [] 7)))) 8332 = 0x490A"
proof -
  let ?e = "example_state 100 []"
  let ?r = "UploadConstantRegisters (probe (bump_buffer 16384)) example_registers ?e [] 7"
  let ?h = "host_base (fst (snd ?r))"
  have n: "(100 :: 64 word) \<noteq> VK_WHOLE_SIZE" by (simp add: VK_WHOLE_SIZE_def)
  have a: "Acquire (bump_buffer 16384) (fst (transient_buffer ?e)) 8352 7 = (Some 100, 8452)"
    by (simp add: bump_buffer_def example_state_def)
  note t = UploadConstantRegisters_layout[where rb = "bump_buffer 16384" and regs = example_registers
      and s = ?e and cb = "[]" and fence = 7, unfolded Let_def a]
  have res: "fst ?r = (100, 100)"
    using t[THEN conjunct2, THEN conjunct1] n by simp
  have off: "fst (fst ?r) = 100" using res by simp
  note u = t[THEN conjunct2, THEN conjunct2, THEN conjunct2, unfolded off, THEN mp, OF n]
  have lg: "snd (transient_buffer (fst (snd ?r))) = [AcquireCall 8352 7, FlushCall 100 8352]"
  proof -
    have "snd (transient_buffer (fst (snd ?r))) =
          snd (transient_buffer ?e) @ [AcquireCall 8352 7, FlushCall 100 8352] \<or>
        snd (transient_buffer (fst (snd ?r))) =
          snd (transient_buffer ?e) @ [AcquireCall 8352 7, ScavengeCall, AcquireCall 8352 7,
            FlushCall 100 8352]"
      by (rule u[THEN conjunct1])
    moreover have "AllocateTransientData (probe (bump_buffer 16384)) ?e
        kConstantRegisterUniformRange 7 =
        (100, ?e\<lparr>transient_buffer := (8452, [AcquireCall 8352 7])\<rparr>)"
      using example_allocation[of 100 8352 16384 "[]" 7]
      by (simp add: VK_WHOLE_SIZE_def kConstantRegisterUniformRange_def)
    then have "snd (transient_buffer (fst (snd ?r))) = [AcquireCall 8352 7, FlushCall 100 8352]"
      using UploadConstantRegisters_uploaded(3)[of "probe (bump_buffer 16384)" ?e 7 100 _
          example_registers "[]"] n
      by (simp add: probe_simps kConstantRegisterUniformRange_def)
    ultimately show ?thesis by simp
  qed
  have fr: "\<forall>a. a < unat (100 :: 64 word) \<or> unat (100 :: 64 word) + 8352 \<le> a \<longrightarrow>
      ?h a = host_base ?e a"
    by (rule u[THEN conjunct2, THEN conjunct2, THEN conjunct2, THEN conjunct2, THEN conjunct1])
  have z: "?h a = 0" if "a < 4" for a
    using fr[rule_format, of a] that by (simp add: example_state_def)
  have w0: "load_u32 ?h 0 = 0"
    by (simp add: load_u32_def z)
  have q1: "\<forall>j<2048. load_u32 ?h (unat (100 :: 64 word) + 4 * j) =
        register_file ?e (XE_GPU_REG_SHADER_CONSTANT_000_X example_registers + j)"
    by (rule u[THEN conjunct2, THEN conjunct2, THEN conjunct2, THEN conjunct2, THEN conjunct2,
          THEN conjunct1])
  have q2: "\<forall>j<8. load_u32 ?h (unat (100 :: 64 word) + 8192 + 4 * j) =
        register_file ?e (XE_GPU_REG_SHADER_CONSTANT_BOOL_000_031 example_registers + j)"
    by (rule u[THEN conjunct2, THEN conjunct2, THEN conjunct2, THEN conjunct2, THEN conjunct2,
          THEN conjunct2, THEN conjunct1])
  have q3: "\<forall>j<32. load_u32 ?h (unat (100 :: 64 word) + 8224 + 4 * j) =
        register_file ?e (XE_GPU_REG_SHADER_CONSTANT_LOOP_00 example_registers + j)"
    by (rule u[THEN conjunct2, THEN conjunct2, THEN conjunct2, THEN conjunct2, THEN conjunct2,
          THEN conjunct2, THEN conjunct2])
  have w1: "load_u32 ?h 100 = 0x4000"
    using q1[rule_format, of 0] by (simp add: example_registers_def example_state_def)
  have w2: "load_u32 ?h 120 = 0x4005"
    using q1[rule_format, of 5] by (simp add: example_registers_def example_state_def)
  have w3: "load_u32 ?h 8296 = 0x4901"
    using q2[rule_format, of 1] by (simp add: example_registers_def example_state_def)
  have w4: "load_u32 ?h 8332 = 0x490A"
    using q3[rule_format, of 2] by (simp add: example_registers_def example_state_def)
  show ?thesis by (intro conjI res lg w0 w1 w2 w3 w4)
qed

end
